theory Spec2Isabelle
  imports Main "HOL-Library.Word" "HOL-Library.Multiset"
begin

section \<open>Data model of the Solana transaction builder\<close>

text \<open>
  Keys, signatures and block hashes are byte sequences. An \<open>ed25519.PublicKey\<close> is a Go
  \<open>[]byte\<close>, so its length is not fixed by the type; \<open>bytes.Equal\<close> is equality of
  the byte lists. \<open>Signature\<close> is \<open>[64]byte\<close> and \<open>Blockhash\<close> is \<open>[32]byte\<close>; their zero
  values are written out below.
\<close>

type_synonym byte = "8 word"
type_synonym PublicKey = "byte list"
type_synonym Signature = "byte list"
type_synonym Blockhash = "byte list"

definition SignatureSize :: nat where
  "SignatureSize = 64"

definition PublicKeySize :: nat where
  "PublicKeySize = 32"

definition zero_Signature :: Signature where
  "zero_Signature = replicate SignatureSize 0"

definition zero_Blockhash :: Blockhash where
  "zero_Blockhash = replicate 32 0"

text \<open>
  Modelled from the spec: the declaration of \<open>AccountMeta\<close> is not among the source files.
  The spec's data model gives it a public key, the exported flags \<open>IsSigner\<close> and
  \<open>IsWritable\<close>, and the internal flags \<open>isPayer\<close> and \<open>isProgram\<close>; the field names are
  the ones \<open>NewTransaction\<close> and \<open>filterUnique\<close> use.
\<close>

record AccountMeta =
  PublicKey :: PublicKey
  IsSigner :: bool
  IsWritable :: bool
  isPayer :: bool
  isProgram :: bool

text \<open>
  Modelled from the spec: the declarations of \<open>Instruction\<close> and \<open>CompiledInstruction\<close>
  are not among the source files either. The fields are the ones \<open>NewTransaction\<close> reads
  and writes (\<open>Program\<close>, \<open>Accounts\<close>, \<open>Data\<close>; \<open>ProgramIndex\<close>, \<open>Accounts\<close>, \<open>Data\<close>); the
  account and data fields carry a prefix here because record fields share one name space.
\<close>

record Instruction =
  Program :: PublicKey
  InstrAccounts :: "AccountMeta list"
  InstrData :: "byte list"

record CompiledInstruction =
  ProgramIndex :: byte
  CompiledAccounts :: "byte list"
  CompiledData :: "byte list"

record Header =
  NumSignatures :: byte
  NumReadonlySigned :: byte
  NumReadOnly :: byte

record Message =
  Header :: Header
  Accounts :: "PublicKey list"
  RecentBlockhash :: Blockhash
  Instructions :: "CompiledInstruction list"

record Transaction =
  Signatures :: "Signature list"
  Message :: Message

text \<open>The zero value of \<open>Message\<close>, as \<open>var m Message\<close> declares it.\<close>

definition zero_Message :: Message where
  "zero_Message =
     \<lparr>Header = \<lparr>NumSignatures = 0, NumReadonlySigned = 0, NumReadOnly = 0\<rparr>,
      Accounts = [], RecentBlockhash = zero_Blockhash, Instructions = []\<rparr>"

section \<open>Lookup and deduplication\<close>

text \<open>\<open>indexOf\<close>: the first index holding a byte-equal key, or \<open>-1\<close>.\<close>

fun indexOf_from :: "int \<Rightarrow> PublicKey list \<Rightarrow> PublicKey \<Rightarrow> int" where
  "indexOf_from i [] item = -1"
| "indexOf_from i (val # rest) item =
     (if val = item then i else indexOf_from (i + 1) rest item)"

definition indexOf :: "PublicKey list \<Rightarrow> PublicKey \<Rightarrow> int" where
  "indexOf keys item = indexOf_from 0 keys item"

text \<open>
  The inner loop of \<open>filterUnique\<close> over \<open>filtered\<close>: at the first entry with the key of
  \<open>a\<close> the three flags \<open>IsSigner\<close>, \<open>IsWritable\<close> and \<open>isPayer\<close> are promoted and the loop
  jumps to \<open>next\<close> (\<open>Some\<close> of the updated slice); \<open>None\<close> when no entry has the key.
\<close>

definition promote :: "AccountMeta \<Rightarrow> AccountMeta \<Rightarrow> AccountMeta" where
  "promote a f =
     (let f1 = (if IsSigner a then f\<lparr>IsSigner := True\<rparr> else f);
          f2 = (if IsWritable a then f1\<lparr>IsWritable := True\<rparr> else f1);
          f3 = (if isPayer a then f2\<lparr>isPayer := True\<rparr> else f2)
      in f3)"

fun merge_seen :: "AccountMeta \<Rightarrow> AccountMeta list \<Rightarrow> AccountMeta list option" where
  "merge_seen a [] = None"
| "merge_seen a (f # fs) =
     (if PublicKey a = PublicKey f then Some (promote a f # fs)
      else map_option (\<lambda>fs'. f # fs') (merge_seen a fs))"

fun filterUnique_loop :: "AccountMeta list \<Rightarrow> AccountMeta list \<Rightarrow> AccountMeta list" where
  "filterUnique_loop filtered [] = filtered"
| "filterUnique_loop filtered (a # accounts) =
     (case merge_seen a filtered of
        Some filtered' \<Rightarrow> filterUnique_loop filtered' accounts
      | None \<Rightarrow> filterUnique_loop (filtered @ [a]) accounts)"

definition filterUnique :: "AccountMeta list \<Rightarrow> AccountMeta list" where
  "filterUnique accounts = filterUnique_loop [] accounts"

section \<open>The canonical order\<close>

text \<open>
  Modelled from the spec: \<open>SortableAccountMeta\<close> and its \<open>Less\<close> method are not among the
  source files. The spec gives the comparator as the 4-tuple (isPayer descending,
  isSigner descending, isWritable descending, isProgram ascending), which is also the
  order the comment above the call in \<open>NewTransaction\<close> lists.
\<close>

definition Less :: "AccountMeta \<Rightarrow> AccountMeta \<Rightarrow> bool" where
  "Less a b =
     (if isPayer a \<noteq> isPayer b then isPayer a
      else if IsSigner a \<noteq> IsSigner b then IsSigner a
      else if IsWritable a \<noteq> IsWritable b then IsWritable a
      else if isProgram a \<noteq> isProgram b then \<not> isProgram a
      else False)"

text \<open>
  \<open>sort.Sort\<close> belongs to Go's standard library. Its contract is that the result is a
  rearrangement of the input in which no later element is \<open>Less\<close> than an earlier one; it
  is not guaranteed to be stable. The builder takes the sorting function as a parameter,
  and the theorems hold for every function that meets the contract.
\<close>

definition sort_contract :: "(AccountMeta list \<Rightarrow> AccountMeta list) \<Rightarrow> bool" where
  "sort_contract srt \<longleftrightarrow>
     (\<forall>xs. mset (srt xs) = mset xs \<and> sorted_wrt (\<lambda>a b. \<not> Less b a) (srt xs))"

text \<open>
  The insertion sort that \<open>sort.Sort\<close> runs on short slices: each element is swapped
  leftwards while it is \<open>Less\<close> than its left neighbour. The sorted prefix is kept in
  reverse, its last element first.
\<close>

fun bubble :: "AccountMeta \<Rightarrow> AccountMeta list \<Rightarrow> AccountMeta list" where
  "bubble a [] = [a]"
| "bubble a (b # bs) = (if Less a b then b # bubble a bs else a # b # bs)"

definition insertionSort :: "AccountMeta list \<Rightarrow> AccountMeta list" where
  "insertionSort data = rev (foldl (\<lambda>prefix a. bubble a prefix) [] data)"

section \<open>Building a transaction\<close>

text \<open>
  The accounts gathered before deduplication: the payer, then for every instruction its
  program reference followed by its accounts.
\<close>

definition payer_meta :: "PublicKey \<Rightarrow> AccountMeta" where
  "payer_meta payer =
     \<lparr>PublicKey = payer, IsSigner = True, IsWritable = True, isPayer = True, isProgram = False\<rparr>"

definition program_meta :: "PublicKey \<Rightarrow> AccountMeta" where
  "program_meta p =
     \<lparr>PublicKey = p, IsSigner = False, IsWritable = False, isPayer = False, isProgram = True\<rparr>"

fun collect_loop :: "AccountMeta list \<Rightarrow> Instruction list \<Rightarrow> AccountMeta list" where
  "collect_loop accounts [] = accounts"
| "collect_loop accounts (i # instructions) =
     collect_loop ((accounts @ [program_meta (Program i)]) @ InstrAccounts i) instructions"

definition collect_accounts :: "PublicKey \<Rightarrow> Instruction list \<Rightarrow> AccountMeta list" where
  "collect_accounts payer instructions = collect_loop [payer_meta payer] instructions"

text \<open>
  The sorted, deduplicated sequence that \<open>NewTransaction\<close> compiles the message from.
\<close>

definition sorted_accounts ::
  "(AccountMeta list \<Rightarrow> AccountMeta list) \<Rightarrow> PublicKey \<Rightarrow> Instruction list \<Rightarrow> AccountMeta list" where
  "sorted_accounts srt payer instructions = srt (filterUnique (collect_accounts payer instructions))"

text \<open>
  The loop that fills the account table and the header. The counters are bytes and
  \<open>++\<close> wraps around.
\<close>

definition add_account :: "Message \<Rightarrow> AccountMeta \<Rightarrow> Message" where
  "add_account m account =
     (let m1 = m\<lparr>Accounts := Accounts m @ [PublicKey account]\<rparr> in
      if IsSigner account then
        (let m2 = m1\<lparr>Header := (Header m1)\<lparr>NumSignatures := NumSignatures (Header m1) + 1\<rparr>\<rparr> in
         if \<not> IsWritable account
         then m2\<lparr>Header := (Header m2)\<lparr>NumReadonlySigned := NumReadonlySigned (Header m2) + 1\<rparr>\<rparr>
         else m2)
      else if \<not> IsWritable account
      then m1\<lparr>Header := (Header m1)\<lparr>NumReadOnly := NumReadOnly (Header m1) + 1\<rparr>\<rparr>
      else m1)"

fun add_accounts :: "Message \<Rightarrow> AccountMeta list \<Rightarrow> Message" where
  "add_accounts m [] = m"
| "add_accounts m (account # accounts) = add_accounts (add_account m account) accounts"

text \<open>
  A compiled instruction holds indices into the account table; \<open>byte(...)\<close> keeps the low
  eight bits of the index.
\<close>

definition compile_instruction :: "PublicKey list \<Rightarrow> Instruction \<Rightarrow> CompiledInstruction" where
  "compile_instruction accounts i =
     \<lparr>ProgramIndex = word_of_int (indexOf accounts (Program i)),
      CompiledAccounts = map (\<lambda>a. word_of_int (indexOf accounts (PublicKey a))) (InstrAccounts i),
      CompiledData = InstrData i\<rparr>"

text \<open>The last loop: an empty key is replaced by a zero-filled key.\<close>

definition pad_key :: "PublicKey \<Rightarrow> PublicKey" where
  "pad_key k = (if length k = 0 then replicate PublicKeySize 0 else k)"

definition NewTransaction ::
  "(AccountMeta list \<Rightarrow> AccountMeta list) \<Rightarrow> PublicKey \<Rightarrow> Instruction list \<Rightarrow> Transaction" where
  "NewTransaction srt payer instructions =
     (let accounts = sorted_accounts srt payer instructions;
          m = add_accounts zero_Message accounts;
          m = m\<lparr>Instructions := Instructions m @ map (compile_instruction (Accounts m)) instructions\<rparr>;
          m = m\<lparr>Accounts := map pad_key (Accounts m)\<rparr>
      in \<lparr>Signatures = replicate (unat (NumSignatures (Header m))) zero_Signature, Message = m\<rparr>)"

section \<open>Block hash and signing\<close>

definition SetBlockhash :: "Blockhash \<Rightarrow> Transaction \<Rightarrow> Transaction" where
  "SetBlockhash bh t = t\<lparr>Message := (Message t)\<lparr>RecentBlockhash := bh\<rparr>\<rparr>"

text \<open>
  \<open>Sign\<close> returns an error built by \<open>errors.Errorf\<close>; the two messages are the two error
  kinds: "is not in the account list" and "is not in the list of signers".
\<close>

datatype sign_error = UnknownSigner | NotASigner

text \<open>Go's \<open>copy(dst, src)\<close>: the first \<open>min (len dst) (len src)\<close> bytes of \<open>dst\<close> are overwritten.\<close>

definition copy_bytes :: "byte list \<Rightarrow> byte list \<Rightarrow> byte list" where
  "copy_bytes dst src =
     (let n = min (length dst) (length src) in take n src @ drop n dst)"

text \<open>
  The standard library's \<open>PrivateKey.Public\<close> and \<open>ed25519.Sign\<close>, and the method
  \<open>Message.Marshal\<close> (not among the source files), are parameters: \<open>pub\<close>, \<open>sign\<close> and
  \<open>marshal\<close>. They are total here: a private key is taken to be well formed, so that the
  library calls return. The loop returns the error, if any, together with the signature
  slots as it leaves them: the slots are written in place through the pointer receiver,
  so the writes made before an error stay.
\<close>

fun Sign_loop ::
  "('k \<Rightarrow> PublicKey) \<Rightarrow> ('k \<Rightarrow> byte list \<Rightarrow> byte list) \<Rightarrow> byte list \<Rightarrow> PublicKey list \<Rightarrow>
   Signature list \<Rightarrow> 'k list \<Rightarrow> sign_error option \<times> Signature list" where
  "Sign_loop pub sign messageBytes accounts sigs [] = (None, sigs)"
| "Sign_loop pub sign messageBytes accounts sigs (s # signers) =
     (let index = indexOf accounts (pub s) in
      if index < 0 then (Some UnknownSigner, sigs)
      else if index \<ge> int (length sigs) then (Some NotASigner, sigs)
      else Sign_loop pub sign messageBytes accounts
             (sigs[nat index := copy_bytes (sigs ! nat index) (sign s messageBytes)]) signers)"

definition Sign ::
  "('k \<Rightarrow> PublicKey) \<Rightarrow> ('k \<Rightarrow> byte list \<Rightarrow> byte list) \<Rightarrow> (Message \<Rightarrow> byte list) \<Rightarrow>
   Transaction \<Rightarrow> 'k list \<Rightarrow> sign_error option \<times> Transaction" where
  "Sign pub sign marshal t signers =
     (let messageBytes = marshal (Message t);
          (err, sigs) = Sign_loop pub sign messageBytes (Accounts (Message t)) (Signatures t) signers
      in (err, t\<lparr>Signatures := sigs\<rparr>))"

section \<open>Auxiliary definitions\<close>

text \<open>
  One round of the outer loop of \<open>filterUnique\<close>, for a \<open>filtered\<close> slice whose keys are
  distinct: the entry with the key of \<open>a\<close> is promoted, or \<open>a\<close> is appended.
\<close>

definition merge_step :: "AccountMeta list \<Rightarrow> AccountMeta \<Rightarrow> AccountMeta list" where
  "merge_step fs a =
     (if PublicKey a \<in> PublicKey ` set fs
      then map (\<lambda>f. if PublicKey f = PublicKey a then promote a f else f) fs
      else fs @ [a])"

text \<open>
  An account reference as a caller of the package builds it: the internal flags
  \<open>isPayer\<close> and \<open>isProgram\<close> are unexported and stay unset.
\<close>

definition caller_meta :: "PublicKey \<Rightarrow> bool \<Rightarrow> bool \<Rightarrow> AccountMeta" where
  "caller_meta k s w =
     \<lparr>PublicKey = k, IsSigner = s, IsWritable = w, isPayer = False, isProgram = False\<rparr>"

text \<open>Four distinct keys for the examples.\<close>

definition key_P :: PublicKey where "key_P = [1]"
definition key_A :: PublicKey where "key_A = [2]"
definition key_G :: PublicKey where "key_G = [3]"
definition key_B :: PublicKey where "key_B = [4]"

text \<open>
  The position of an account in the canonical order, as a number: \<open>Less a b\<close> holds
  exactly when the rank of \<open>a\<close> is below the rank of \<open>b\<close>.
\<close>

definition rank :: "AccountMeta \<Rightarrow> nat" where
  "rank a = (if isPayer a then 0 else 8) + (if IsSigner a then 0 else 4) +
            (if IsWritable a then 0 else 2) + (if isProgram a then 1 else 0)"

text \<open>
  An instruction with 255 distinct writable signer accounts; with the payer the
  transaction has 256 signers.
\<close>

definition many_signers :: Instruction where
  "many_signers =
     \<lparr>Program = key_G,
      InstrAccounts = map (\<lambda>n. caller_meta (replicate (Suc n) 0) True True) [0..<255],
      InstrData = []\<rparr>"

text \<open>
  The scenario of the spec: one instruction calling program \<open>G\<close> with the accounts
  \<open>A\<close> (signer, writable) and \<open>B\<close> (read-only), carrying the data \<open>d\<close>.
\<close>

definition scenario_instruction ::
  "PublicKey \<Rightarrow> PublicKey \<Rightarrow> PublicKey \<Rightarrow> byte list \<Rightarrow> Instruction" where
  "scenario_instruction G A B d =
     \<lparr>Program = G,
      InstrAccounts = [caller_meta A True True, caller_meta B False False],
      InstrData = d\<rparr>"

definition scenario :: Instruction where
  "scenario = scenario_instruction key_G key_A key_B [5, 6]"

text \<open>An instruction whose program key is empty (a nil \<open>ed25519.PublicKey\<close>).\<close>

definition empty_program :: Instruction where
  "empty_program = \<lparr>Program = [], InstrAccounts = [], InstrData = []\<rparr>"

text \<open>
  The check \<open>Sign\<close> makes on a signing key: its public key is found in the account
  table at an index below \<open>len(t.Signatures)\<close>.
\<close>

definition slot_of :: "('k \<Rightarrow> PublicKey) \<Rightarrow> Transaction \<Rightarrow> 'k \<Rightarrow> int" where
  "slot_of pub t s = indexOf (Accounts (Message t)) (pub s)"

definition passes :: "('k \<Rightarrow> PublicKey) \<Rightarrow> Transaction \<Rightarrow> 'k \<Rightarrow> bool" where
  "passes pub t s \<longleftrightarrow> 0 \<le> slot_of pub t s \<and> slot_of pub t s < int (length (Signatures t))"

text \<open>
  The condition in the words of the spec: the key is in the account table and its index
  is below \<open>header.NumSignatures\<close>.
\<close>

definition declared_signer :: "('k \<Rightarrow> PublicKey) \<Rightarrow> Transaction \<Rightarrow> 'k \<Rightarrow> bool" where
  "declared_signer pub t s \<longleftrightarrow>
     pub s \<in> set (Accounts (Message t)) \<and>
     slot_of pub t s < int (unat (NumSignatures (Header (Message t))))"

text \<open>
  Stand-ins for the standard library and the encoder in the examples: a private key is
  its public key followed by a seed byte, a signature is 64 bytes made of the seed, and
  the payload is the block hash.
\<close>

definition demo_pub :: "byte list \<Rightarrow> PublicKey" where
  "demo_pub k = butlast k"

definition demo_sign :: "byte list \<Rightarrow> byte list \<Rightarrow> byte list" where
  "demo_sign k m = replicate 64 (last k)"

definition demo_marshal :: "Message \<Rightarrow> byte list" where
  "demo_marshal m = RecentBlockhash m"

text \<open>
  The data model's invariant of a transaction: there are as many signature slots as the
  header declares signers. \<open>NewTransaction\<close> establishes it; \<open>SetBlockhash\<close> and \<open>Sign\<close>
  keep it.
\<close>

definition slots_match_header :: "Transaction \<Rightarrow> bool" where
  "slots_match_header t \<longleftrightarrow>
     length (Signatures t) = unat (NumSignatures (Header (Message t)))"

text \<open>The transaction of the scenario, and signing keys for \<open>P\<close>, \<open>A\<close>, \<open>G\<close> and a stranger.\<close>

definition scenario_tx :: Transaction where
  "scenario_tx = NewTransaction insertionSort key_P [scenario]"

definition priv_P :: "byte list" where "priv_P = key_P @ [10]"
definition priv_A :: "byte list" where "priv_A = key_A @ [11]"
definition priv_G :: "byte list" where "priv_G = key_G @ [12]"
definition priv_X :: "byte list" where "priv_X = [9, 13]"

text \<open>
  The four permission classes in the order of the account table: writable signers,
  read-only signers, writable non-signers, read-only non-signers.
\<close>

definition permission_class :: "AccountMeta \<Rightarrow> nat" where
  "permission_class a = (if IsSigner a then 0 else 2) + (if IsWritable a then 0 else 1)"

text \<open>
  A transaction value put together by hand (the fields of \<open>Transaction\<close> are exported):
  the message of the scenario with three signature slots, one more than its header
  declares. The key of \<open>B\<close> has index 2 in its account table.
\<close>

definition oversized_tx :: Transaction where
  "oversized_tx = scenario_tx\<lparr>Signatures := [replicate 64 0, replicate 64 0, replicate 64 0]\<rparr>"

definition priv_B :: "byte list" where "priv_B = key_B @ [14]"

section \<open>Properties of deduplication\<close>

lemma promote_key [simp]: "PublicKey (promote a f) = PublicKey f"
  by (simp add: promote_def Let_def)

lemma promote_flags [simp]:
  "IsSigner (promote a f) = (IsSigner f \<or> IsSigner a)"
  "IsWritable (promote a f) = (IsWritable f \<or> IsWritable a)"
  "isPayer (promote a f) = (isPayer f \<or> isPayer a)"
  "isProgram (promote a f) = isProgram f"
  by (auto simp add: promote_def Let_def)

lemma merge_seen_None: "merge_seen a fs = None \<longleftrightarrow> PublicKey a \<notin> PublicKey ` set fs"
  by (induction fs) auto

lemma merge_seen_Some:
  "distinct (map PublicKey fs) \<Longrightarrow> PublicKey a \<in> PublicKey ` set fs \<Longrightarrow>
   merge_seen a fs = Some (map (\<lambda>f. if PublicKey f = PublicKey a then promote a f else f) fs)"
proof (induction fs)
  case Nil
  then show ?case by simp
next
  case (Cons f fs)
  show ?case
  proof (cases "PublicKey a = PublicKey f")
    case True
    with Cons.prems have "\<forall>g\<in>set fs. PublicKey g \<noteq> PublicKey a" by (auto simp: image_iff)
    then have "map (\<lambda>f. if PublicKey f = PublicKey a then promote a f else f) fs = fs"
      by (induction fs) auto
    with True show ?thesis by simp
  next
    case False
    with Cons show ?thesis by auto
  qed
qed

lemma loop_step:
  "distinct (map PublicKey fs) \<Longrightarrow>
   filterUnique_loop fs (a # as) = filterUnique_loop (merge_step fs a) as"
  by (cases "PublicKey a \<in> PublicKey ` set fs")
     (simp_all add: merge_step_def merge_seen_Some merge_seen_None[THEN iffD2])

lemma merge_step_keys:
  "map PublicKey (merge_step fs a) =
     (if PublicKey a \<in> PublicKey ` set fs then map PublicKey fs
      else map PublicKey fs @ [PublicKey a])"
  by (auto simp: merge_step_def comp_def intro!: map_cong)

lemma merge_step_distinct:
  "distinct (map PublicKey fs) \<Longrightarrow> distinct (map PublicKey (merge_step fs a))"
  by (auto simp: merge_step_keys)

lemma merge_step_keyset:
  "PublicKey ` set (merge_step fs a) = insert (PublicKey a) (PublicKey ` set fs)"
proof (cases "PublicKey a \<in> PublicKey ` set fs")
  case True
  have "PublicKey ` set (merge_step fs a) = set (map PublicKey (merge_step fs a))" by simp
  also have "\<dots> = set (map PublicKey fs)" using True by (simp only: merge_step_keys if_True)
  finally show ?thesis using True by auto
next
  case False
  then show ?thesis by (simp add: merge_step_def)
qed

lemma loop_distinct:
  "distinct (map PublicKey fs) \<Longrightarrow> distinct (map PublicKey (filterUnique_loop fs as))"
proof (induction as arbitrary: fs)
  case Nil
  then show ?case by simp
next
  case (Cons a as)
  then show ?case by (simp only: loop_step merge_step_distinct)
qed

lemma loop_keys:
  "distinct (map PublicKey fs) \<Longrightarrow>
   PublicKey ` set (filterUnique_loop fs as) = PublicKey ` set fs \<union> PublicKey ` set as"
proof (induction as arbitrary: fs)
  case Nil
  then show ?case by simp
next
  case (Cons a as)
  have "PublicKey ` set (filterUnique_loop (merge_step fs a) as) =
        PublicKey ` set (merge_step fs a) \<union> PublicKey ` set as"
    by (rule Cons.IH) (rule merge_step_distinct[OF Cons.prems])
  then show ?case by (simp only: loop_step[OF Cons.prems] merge_step_keyset) auto
qed

lemma distinct_key_eq:
  "distinct (map PublicKey fs) \<Longrightarrow> x \<in> set fs \<Longrightarrow> y \<in> set fs \<Longrightarrow>
   PublicKey x = PublicKey y \<Longrightarrow> x = y"
  by (meson distinct_map inj_onD)

lemma merge_step_flag:
  assumes g: "\<And>a f. g (promote a f) = (g f \<or> g a)"
    and d: "distinct (map PublicKey fs)"
    and f1: "f1 \<in> set (merge_step fs a)"
  shows "g f1 \<longleftrightarrow> (\<exists>x\<in>set fs \<union> {a}. PublicKey x = PublicKey f1 \<and> g x)"
proof (cases "PublicKey a \<in> PublicKey ` set fs")
  case True
  with f1 obtain f where f: "f \<in> set fs"
    and f1_eq: "f1 = (if PublicKey f = PublicKey a then promote a f else f)"
    by (auto simp: merge_step_def)
  have k: "PublicKey f1 = PublicKey f" by (simp add: f1_eq)
  have only: "(\<exists>x\<in>set fs. PublicKey x = PublicKey f \<and> g x) \<longleftrightarrow> g f"
    using distinct_key_eq[OF d _ f] f by blast
  have rhs: "(\<exists>x\<in>set fs \<union> {a}. PublicKey x = PublicKey f1 \<and> g x) \<longleftrightarrow>
             (g f \<or> (PublicKey a = PublicKey f \<and> g a))"
    unfolding k using only by blast
  show ?thesis
  proof (cases "PublicKey f = PublicKey a")
    case True
    then have "g f1 = (g f \<or> g a)" by (simp add: f1_eq g)
    with True rhs show ?thesis by simp
  next
    case False
    then have "g f1 = g f" by (simp add: f1_eq)
    with False rhs show ?thesis by metis
  qed
next
  case False
  with f1 have "f1 \<in> set fs \<or> f1 = a" by (auto simp: merge_step_def)
  then show ?thesis
  proof
    assume m: "f1 \<in> set fs"
    have only: "(\<exists>x\<in>set fs. PublicKey x = PublicKey f1 \<and> g x) \<longleftrightarrow> g f1"
      using distinct_key_eq[OF d _ m] m by blast
    moreover have "PublicKey a \<noteq> PublicKey f1" using False m by (metis imageI)
    ultimately show ?thesis by blast
  next
    assume e: "f1 = a"
    have "\<not> (\<exists>x\<in>set fs. PublicKey x = PublicKey a)" using False by (metis imageI)
    then show ?thesis unfolding e by blast
  qed
qed

lemma loop_flag:
  assumes g: "\<And>a f. g (promote a f) = (g f \<or> g a)"
  shows "distinct (map PublicKey fs) \<Longrightarrow> f' \<in> set (filterUnique_loop fs as) \<Longrightarrow>
         g f' \<longleftrightarrow> (\<exists>x\<in>set fs \<union> set as. PublicKey x = PublicKey f' \<and> g x)"
proof (induction as arbitrary: fs)
  case Nil
  then show ?case using distinct_key_eq[of fs] by auto
next
  case (Cons a as)
  let ?fs1 = "merge_step fs a"
  have d1: "distinct (map PublicKey ?fs1)" using Cons.prems(1) by (rule merge_step_distinct)
  have mem: "f' \<in> set (filterUnique_loop ?fs1 as)" using Cons.prems by (simp only: loop_step)
  have ih: "g f' \<longleftrightarrow> (\<exists>x\<in>set ?fs1 \<union> set as. PublicKey x = PublicKey f' \<and> g x)"
    by (rule Cons.IH[OF d1 mem])
  have step: "\<And>f1. f1 \<in> set ?fs1 \<Longrightarrow>
      g f1 \<longleftrightarrow> (\<exists>x\<in>set fs \<union> {a}. PublicKey x = PublicKey f1 \<and> g x)"
    by (rule merge_step_flag[OF g Cons.prems(1)])
  show ?case
  proof
    assume "g f'"
    with ih obtain x where x: "x \<in> set ?fs1 \<union> set as" "PublicKey x = PublicKey f'" "g x"
      by blast
    show "\<exists>x\<in>set fs \<union> set (a # as). PublicKey x = PublicKey f' \<and> g x"
    proof (cases "x \<in> set ?fs1")
      case True
      with step x obtain y where "y \<in> set fs \<union> {a}" "PublicKey y = PublicKey x" "g y"
        by blast
      with x show ?thesis by auto
    next
      case False
      with x show ?thesis by auto
    qed
  next
    assume "\<exists>x\<in>set fs \<union> set (a # as). PublicKey x = PublicKey f' \<and> g x"
    then obtain x where x: "x \<in> set fs \<union> set (a # as)" "PublicKey x = PublicKey f'" "g x"
      by blast
    show "g f'"
    proof (cases "x \<in> set as")
      case True
      with x ih show ?thesis by blast
    next
      case False
      with x have xm: "x \<in> set fs \<union> {a}" by auto
      then have "PublicKey x \<in> PublicKey ` set ?fs1" by (auto simp: merge_step_keyset)
      then obtain f1 where f1: "f1 \<in> set ?fs1" "PublicKey f1 = PublicKey x" by auto
      with step[OF f1(1)] xm x have "g f1" by auto
      with f1 x ih show ?thesis by auto
    qed
  qed
qed

lemma find_key_distinct:
  "distinct (map PublicKey fs) \<Longrightarrow> f \<in> set fs \<Longrightarrow>
   find (\<lambda>x. PublicKey x = PublicKey f) fs = Some f"
  by (induction fs) (auto simp: image_iff)

lemma merge_step_first:
  assumes h: "\<And>a f. h (promote a f) = h f"
  shows "map_option h (find (\<lambda>x. PublicKey x = k) (merge_step fs a @ as)) =
         map_option h (find (\<lambda>x. PublicKey x = k) (fs @ a # as))"
proof (cases "PublicKey a \<in> PublicKey ` set fs")
  case True
  have A: "map_option h (find (\<lambda>x. PublicKey x = k)
             (map (\<lambda>f. if PublicKey f = PublicKey a then promote a f else f) gs @ ys)) =
           map_option h (find (\<lambda>x. PublicKey x = k) (gs @ ys))" for gs ys
    by (induction gs) (auto simp: h)
  have B: "PublicKey a \<in> PublicKey ` set gs \<Longrightarrow>
           map_option h (find (\<lambda>x. PublicKey x = k) (gs @ a # as)) =
           map_option h (find (\<lambda>x. PublicKey x = k) (gs @ as))" for gs
  proof (cases "PublicKey a = k")
    case True
    assume "PublicKey a \<in> PublicKey ` set gs"
    then have "find (\<lambda>x. PublicKey x = k) (gs @ ys) = find (\<lambda>x. PublicKey x = k) gs" for ys
      using True by (induction gs) auto
    then show ?thesis by simp
  next
    case False
    then have "find (\<lambda>x. PublicKey x = k) (gs @ a # as) = find (\<lambda>x. PublicKey x = k) (gs @ as)"
      by (induction gs) auto
    then show ?thesis by simp
  qed
  from True show ?thesis by (simp add: merge_step_def A B)
next
  case False
  then show ?thesis by (simp add: merge_step_def)
qed

lemma loop_first:
  assumes h: "\<And>a f. h (promote a f) = h f"
  shows "distinct (map PublicKey fs) \<Longrightarrow> f' \<in> set (filterUnique_loop fs as) \<Longrightarrow>
         map_option h (find (\<lambda>x. PublicKey x = PublicKey f') (fs @ as)) = Some (h f')"
proof (induction as arbitrary: fs)
  case Nil
  then show ?case by (simp add: find_key_distinct)
next
  case (Cons a as)
  have d1: "distinct (map PublicKey (merge_step fs a))"
    using Cons.prems(1) by (rule merge_step_distinct)
  have mem: "f' \<in> set (filterUnique_loop (merge_step fs a) as)"
    using Cons.prems by (simp only: loop_step)
  from Cons.IH[OF d1 mem] show ?case by (simp only: merge_step_first[OF h])
qed

lemma filterUnique_distinct: "distinct (map PublicKey (filterUnique accounts))"
  by (simp add: filterUnique_def loop_distinct)

lemma filterUnique_keys: "PublicKey ` set (filterUnique accounts) = PublicKey ` set accounts"
  by (simp add: filterUnique_def loop_keys)

lemma filterUnique_flag:
  assumes "\<And>a f. g (promote a f) = (g f \<or> g a)" and "f \<in> set (filterUnique accounts)"
  shows "g f \<longleftrightarrow> (\<exists>a\<in>set accounts. PublicKey a = PublicKey f \<and> g a)"
  using loop_flag[of g "[]" f accounts] assms by (simp add: filterUnique_def)

lemma filterUnique_first:
  assumes "\<And>a f. h (promote a f) = h f" and "f \<in> set (filterUnique accounts)"
  shows "map_option h (find (\<lambda>a. PublicKey a = PublicKey f) accounts) = Some (h f)"
  using loop_first[of h "[]" f accounts] assms by (simp add: filterUnique_def)

lemma filterUnique_of_distinct:
  "distinct (map PublicKey fs @ map PublicKey as) \<Longrightarrow> filterUnique_loop fs as = fs @ as"
proof (induction as arbitrary: fs)
  case Nil
  then show ?case by simp
next
  case (Cons a as)
  then have n: "PublicKey a \<notin> PublicKey ` set fs" by auto
  have "filterUnique_loop fs (a # as) = filterUnique_loop (fs @ [a]) as"
    using n by (simp add: merge_seen_None[THEN iffD2])
  also have "\<dots> = (fs @ [a]) @ as" using Cons.prems by (intro Cons.IH) auto
  finally show ?case by simp
qed

lemma filterUnique_id: "distinct (map PublicKey accounts) \<Longrightarrow> filterUnique accounts = accounts"
  using filterUnique_of_distinct[of "[]" accounts] by (simp add: filterUnique_def)

lemma remdups_drop_seen: "k \<in> set ys \<Longrightarrow> remdups (xs @ k # ys) = remdups (xs @ ys)"
  by (induction xs) auto

lemma loop_order:
  "distinct (map PublicKey fs) \<Longrightarrow>
   map PublicKey (filterUnique_loop fs as) = rev (remdups (rev (map PublicKey fs @ map PublicKey as)))"
proof (induction as arbitrary: fs)
  case Nil
  then show ?case by (simp add: distinct_remdups_id)
next
  case (Cons a as)
  have d1: "distinct (map PublicKey (merge_step fs a))"
    using Cons.prems by (rule merge_step_distinct)
  have "map PublicKey (filterUnique_loop fs (a # as)) =
        rev (remdups (rev (map PublicKey (merge_step fs a) @ map PublicKey as)))"
    by (simp only: loop_step[OF Cons.prems] Cons.IH[OF d1])
  also have "\<dots> = rev (remdups (rev (map PublicKey fs @ map PublicKey (a # as))))"
    by (simp add: merge_step_keys remdups_drop_seen)
  finally show ?case .
qed

lemma filterUnique_order:
  "map PublicKey (filterUnique accounts) = rev (remdups (rev (map PublicKey accounts)))"
  using loop_order[of "[]" accounts] by (simp add: filterUnique_def)

section \<open>Claims about deduplication\<close>

text \<open>
  C3, as stated, fails: \<open>isProgram\<close> is not merged. A key first met as a writable signer
  account and then as an instruction's program keeps \<open>isProgram = False\<close>, although one
  of its occurrences has the flag.
\<close>

theorem filterUnique_isProgram_not_merged:
  "PublicKey (caller_meta key_G True True) = PublicKey (program_meta key_G) \<and>
   filterUnique [caller_meta key_G True True, program_meta key_G] = [caller_meta key_G True True] \<and>
   isProgram (caller_meta key_G True True) \<noteq>
     (isProgram (caller_meta key_G True True) \<or> isProgram (program_meta key_G))"
  by (simp add: filterUnique_def caller_meta_def program_meta_def promote_def)

text \<open>
  C3, amended: the output of \<open>filterUnique\<close> holds every key of the input exactly once,
  and the kept entry's \<open>IsSigner\<close>, \<open>IsWritable\<close> and \<open>isPayer\<close> flags are each the logical
  OR over all occurrences of its key, while its \<open>isProgram\<close> flag is the flag of the key's
  first occurrence. In particular a key referenced both as a program and as a writable
  signer account ends up with \<open>IsSigner\<close> and \<open>IsWritable\<close> true.
\<close>

theorem filterUnique_merges_permissions:
  "distinct (map PublicKey (filterUnique accounts)) \<and>
   PublicKey ` set (filterUnique accounts) = PublicKey ` set accounts \<and>
   (\<forall>f\<in>set (filterUnique accounts).
      (IsSigner f \<longleftrightarrow> (\<exists>a\<in>set accounts. PublicKey a = PublicKey f \<and> IsSigner a)) \<and>
      (IsWritable f \<longleftrightarrow> (\<exists>a\<in>set accounts. PublicKey a = PublicKey f \<and> IsWritable a)) \<and>
      (isPayer f \<longleftrightarrow> (\<exists>a\<in>set accounts. PublicKey a = PublicKey f \<and> isPayer a)) \<and>
      map_option isProgram (find (\<lambda>a. PublicKey a = PublicKey f) accounts) = Some (isProgram f))"
proof (intro conjI ballI)
  show "distinct (map PublicKey (filterUnique accounts))" by (rule filterUnique_distinct)
  show "PublicKey ` set (filterUnique accounts) = PublicKey ` set accounts"
    by (rule filterUnique_keys)
next
  fix f assume f: "f \<in> set (filterUnique accounts)"
  show "IsSigner f \<longleftrightarrow> (\<exists>a\<in>set accounts. PublicKey a = PublicKey f \<and> IsSigner a)"
    by (rule filterUnique_flag[OF _ f]) simp
  show "IsWritable f \<longleftrightarrow> (\<exists>a\<in>set accounts. PublicKey a = PublicKey f \<and> IsWritable a)"
    by (rule filterUnique_flag[OF _ f]) simp
  show "isPayer f \<longleftrightarrow> (\<exists>a\<in>set accounts. PublicKey a = PublicKey f \<and> isPayer a)"
    by (rule filterUnique_flag[OF _ f]) simp
  show "map_option isProgram (find (\<lambda>a. PublicKey a = PublicKey f) accounts) = Some (isProgram f)"
    by (rule filterUnique_first[OF _ f]) simp
qed

theorem filterUnique_merges_permissions_witness:
  "filterUnique [program_meta key_G, caller_meta key_G True True] =
     [\<lparr>PublicKey = key_G, IsSigner = True, IsWritable = True, isPayer = False, isProgram = True\<rparr>] \<and>
   (\<exists>a\<in>set [program_meta key_G, caller_meta key_G True True]. PublicKey a = key_G \<and> IsSigner a) \<and>
   (\<exists>a\<in>set [program_meta key_G, caller_meta key_G True True]. PublicKey a = key_G \<and> IsWritable a) \<and>
   \<not> (\<exists>a\<in>set [program_meta key_G, caller_meta key_G True True]. PublicKey a = key_G \<and> isPayer a) \<and>
   map_option isProgram
     (find (\<lambda>a. PublicKey a = key_G) [program_meta key_G, caller_meta key_G True True]) = Some True"
proof -
  have e: "filterUnique [program_meta key_G, caller_meta key_G True True] =
     [\<lparr>PublicKey = key_G, IsSigner = True, IsWritable = True, isPayer = False, isProgram = True\<rparr>]"
    by (simp add: filterUnique_def caller_meta_def program_meta_def promote_def)
  from filterUnique_merges_permissions[of "[program_meta key_G, caller_meta key_G True True]"]
  have "\<forall>f\<in>set [\<lparr>PublicKey = key_G, IsSigner = True, IsWritable = True, isPayer = False,
                     isProgram = True\<rparr>].
      (IsSigner f \<longleftrightarrow> (\<exists>a\<in>set [program_meta key_G, caller_meta key_G True True].
          PublicKey a = PublicKey f \<and> IsSigner a)) \<and>
      (IsWritable f \<longleftrightarrow> (\<exists>a\<in>set [program_meta key_G, caller_meta key_G True True].
          PublicKey a = PublicKey f \<and> IsWritable a)) \<and>
      (isPayer f \<longleftrightarrow> (\<exists>a\<in>set [program_meta key_G, caller_meta key_G True True].
          PublicKey a = PublicKey f \<and> isPayer a)) \<and>
      map_option isProgram (find (\<lambda>a. PublicKey a = PublicKey f)
          [program_meta key_G, caller_meta key_G True True]) = Some (isProgram f)"
    unfolding e by blast
  then show ?thesis using e by simp
qed

text \<open>
  C8, as stated, fails: the merged \<open>isProgram\<close> flag depends on the order of the input.
  The two inputs below are permutations of each other and the kept entries differ in
  \<open>isProgram\<close>.
\<close>

theorem filterUnique_isProgram_order_dependent:
  "mset [program_meta key_G, caller_meta key_G False False] =
     mset [caller_meta key_G False False, program_meta key_G] \<and>
   filterUnique [program_meta key_G, caller_meta key_G False False] = [program_meta key_G] \<and>
   filterUnique [caller_meta key_G False False, program_meta key_G] = [caller_meta key_G False False] \<and>
   isProgram (program_meta key_G) \<noteq> isProgram (caller_meta key_G False False)"
  by (simp add: filterUnique_def caller_meta_def program_meta_def promote_def)

text \<open>
  C8, amended: deduplication is idempotent, and for an input and any permutation of it
  the two outputs hold the same keys, each with the same merged \<open>IsSigner\<close>, \<open>IsWritable\<close>
  and \<open>isPayer\<close> flags. What depends on the encounter order is the order of the output
  (the keys in the order of their first occurrence) and the \<open>isProgram\<close> flag of a key,
  which is taken from its first occurrence.
\<close>

theorem filterUnique_idempotent_order_independent:
  assumes "mset accounts' = mset accounts"
  shows "filterUnique (filterUnique accounts) = filterUnique accounts \<and>
   PublicKey ` set (filterUnique accounts') = PublicKey ` set (filterUnique accounts) \<and>
   (\<forall>f\<in>set (filterUnique accounts). \<forall>f'\<in>set (filterUnique accounts').
      PublicKey f' = PublicKey f \<longrightarrow>
        IsSigner f' = IsSigner f \<and> IsWritable f' = IsWritable f \<and> isPayer f' = isPayer f) \<and>
   map PublicKey (filterUnique accounts) = rev (remdups (rev (map PublicKey accounts))) \<and>
   (\<forall>f\<in>set (filterUnique accounts).
      map_option isProgram (find (\<lambda>a. PublicKey a = PublicKey f) accounts) = Some (isProgram f))"
proof -
  have s: "set accounts' = set accounts" using assms by (rule mset_eq_setD)
  have idem: "filterUnique (filterUnique accounts) = filterUnique accounts"
    by (rule filterUnique_id) (rule filterUnique_distinct)
  have keys: "PublicKey ` set (filterUnique accounts') = PublicKey ` set (filterUnique accounts)"
    by (simp add: filterUnique_keys s)
  have flags: "IsSigner f' = IsSigner f \<and> IsWritable f' = IsWritable f \<and> isPayer f' = isPayer f"
    if f: "f \<in> set (filterUnique accounts)" and f': "f' \<in> set (filterUnique accounts')"
      and k: "PublicKey f' = PublicKey f" for f f'
  proof -
    have "g f' = g f" if g: "\<And>a f. g (promote a f) = (g f \<or> g a)" for g
      using filterUnique_flag[of g f accounts, OF g f] filterUnique_flag[of g f' accounts', OF g f']
      by (simp add: s k)
    then show ?thesis by simp
  qed
  have first: "map_option isProgram (find (\<lambda>a. PublicKey a = PublicKey f) accounts) = Some (isProgram f)"
    if "f \<in> set (filterUnique accounts)" for f
    by (rule filterUnique_first[OF _ that]) simp
  show ?thesis using idem keys flags first filterUnique_order by blast
qed

theorem filterUnique_idempotent_order_independent_witness:
  "mset [caller_meta key_A False True, caller_meta key_B False False, caller_meta key_A True False] =
     mset [caller_meta key_A True False, caller_meta key_A False True, caller_meta key_B False False] \<and>
   filterUnique [caller_meta key_A True False, caller_meta key_A False True, caller_meta key_B False False] =
     [caller_meta key_A True True, caller_meta key_B False False] \<and>
   filterUnique [caller_meta key_A False True, caller_meta key_B False False, caller_meta key_A True False] =
     [caller_meta key_A True True, caller_meta key_B False False] \<and>
   filterUnique [caller_meta key_A True True, caller_meta key_B False False] =
     [caller_meta key_A True True, caller_meta key_B False False]"
proof -
  let ?xs = "[caller_meta key_A True False, caller_meta key_A False True, caller_meta key_B False False]"
  let ?ys = "[caller_meta key_A False True, caller_meta key_B False False, caller_meta key_A True False]"
  have p: "mset ?ys = mset ?xs" by simp
  have e1: "filterUnique ?xs = [caller_meta key_A True True, caller_meta key_B False False]"
    by (simp add: filterUnique_def caller_meta_def promote_def key_A_def key_B_def)
  have e2: "filterUnique ?ys = [caller_meta key_A True True, caller_meta key_B False False]"
    by (simp add: filterUnique_def caller_meta_def promote_def key_A_def key_B_def)
  from filterUnique_idempotent_order_independent[OF p] have
    "filterUnique (filterUnique ?xs) = filterUnique ?xs" by blast
  with p e1 e2 show ?thesis by simp
qed

section \<open>Claim about SetBlockhash\<close>

text \<open>
  C10: \<open>SetBlockhash\<close> changes the message's \<open>RecentBlockhash\<close> and nothing else: the
  header, the account table, the compiled instructions and every signature slot are as
  before, also the slots an earlier \<open>Sign\<close> has written.
\<close>

theorem SetBlockhash_frame:
  "RecentBlockhash (Message (SetBlockhash bh t)) = bh \<and>
   Header (Message (SetBlockhash bh t)) = Header (Message t) \<and>
   Accounts (Message (SetBlockhash bh t)) = Accounts (Message t) \<and>
   Instructions (Message (SetBlockhash bh t)) = Instructions (Message t) \<and>
   Signatures (SetBlockhash bh t) = Signatures t \<and>
   SetBlockhash bh t = t\<lparr>Message := (Message t)\<lparr>RecentBlockhash := bh\<rparr>\<rparr>"
  by (simp add: SetBlockhash_def)

theorem SetBlockhash_frame_witness:
  "SetBlockhash (replicate 32 7)
     \<lparr>Signatures = [replicate 64 9],
      Message = \<lparr>Header = \<lparr>NumSignatures = 1, NumReadonlySigned = 0, NumReadOnly = 0\<rparr>,
                 Accounts = [key_P], RecentBlockhash = zero_Blockhash, Instructions = []\<rparr>\<rparr> =
     \<lparr>Signatures = [replicate 64 9],
      Message = \<lparr>Header = \<lparr>NumSignatures = 1, NumReadonlySigned = 0, NumReadOnly = 0\<rparr>,
                 Accounts = [key_P], RecentBlockhash = replicate 32 7, Instructions = []\<rparr>\<rparr>"
  using SetBlockhash_frame[of "replicate 32 7"
     "\<lparr>Signatures = [replicate 64 9],
      Message = \<lparr>Header = \<lparr>NumSignatures = 1, NumReadonlySigned = 0, NumReadOnly = 0\<rparr>,
                 Accounts = [key_P], RecentBlockhash = zero_Blockhash, Instructions = []\<rparr>\<rparr>"]
  by simp

section \<open>Properties of the sort and of the message compiler\<close>

lemma Less_rank: "Less a b \<longleftrightarrow> rank a < rank b"
  by (simp add: Less_def rank_def)

lemma bubble_mset: "mset (bubble a bs) = add_mset a (mset bs)"
  by (induction bs) auto

lemma bubble_sorted:
  "sorted_wrt (\<lambda>x y. rank y \<le> rank x) bs \<Longrightarrow> sorted_wrt (\<lambda>x y. rank y \<le> rank x) (bubble a bs)"
proof (induction bs)
  case Nil
  then show ?case by simp
next
  case (Cons b bs)
  have s: "set (bubble a bs) = insert a (set bs)"
    using bubble_mset[of a bs] by (metis set_mset_add_mset_insert set_mset_mset)
  show ?case
  proof (cases "Less a b")
    case True
    then have "rank a < rank b" by (simp add: Less_rank)
    with Cons s show ?thesis using True by auto
  next
    case False
    then have "rank b \<le> rank a" by (simp add: Less_rank)
    with Cons show ?thesis using False by fastforce
  qed
qed

lemma foldl_bubble_mset: "mset (foldl (\<lambda>prefix a. bubble a prefix) acc xs) = mset acc + mset xs"
  by (induction xs arbitrary: acc) (simp_all add: bubble_mset)

lemma foldl_bubble_sorted:
  "sorted_wrt (\<lambda>x y. rank y \<le> rank x) acc \<Longrightarrow>
   sorted_wrt (\<lambda>x y. rank y \<le> rank x) (foldl (\<lambda>prefix a. bubble a prefix) acc xs)"
  by (induction xs arbitrary: acc) (simp_all add: bubble_sorted)

lemma insertionSort_contract: "sort_contract insertionSort"
proof -
  have "sorted_wrt (\<lambda>a b. \<not> Less b a) (insertionSort xs)" for xs
    using foldl_bubble_sorted[of "[]" xs]
    by (simp add: insertionSort_def sorted_wrt_rev Less_rank not_less)
  then show ?thesis
    by (simp add: sort_contract_def insertionSort_def foldl_bubble_mset)
qed

lemma add_accounts_Accounts:
  "Accounts (add_accounts m xs) = Accounts m @ map PublicKey xs"
  by (induction xs arbitrary: m) (simp_all add: add_account_def Let_def)

lemma add_accounts_rest:
  "RecentBlockhash (add_accounts m xs) = RecentBlockhash m \<and>
   Instructions (add_accounts m xs) = Instructions m"
  by (induction xs arbitrary: m) (simp_all add: add_account_def Let_def)

lemma add_accounts_NumSignatures:
  "NumSignatures (Header (add_accounts m xs)) =
     NumSignatures (Header m) + of_nat (length (filter IsSigner xs))"
  by (induction xs arbitrary: m) (simp_all add: add_account_def Let_def)

lemma add_accounts_NumReadonlySigned:
  "NumReadonlySigned (Header (add_accounts m xs)) =
     NumReadonlySigned (Header m) + of_nat (length (filter (\<lambda>a. IsSigner a \<and> \<not> IsWritable a) xs))"
  by (induction xs arbitrary: m) (simp_all add: add_account_def Let_def)

lemma add_accounts_NumReadOnly:
  "NumReadOnly (Header (add_accounts m xs)) =
     NumReadOnly (Header m) + of_nat (length (filter (\<lambda>a. \<not> IsSigner a \<and> \<not> IsWritable a) xs))"
  by (induction xs arbitrary: m) (simp_all add: add_account_def Let_def)

lemma NewTransaction_Accounts:
  "Accounts (Message (NewTransaction srt payer instructions)) =
     map (\<lambda>a. pad_key (PublicKey a)) (sorted_accounts srt payer instructions)"
  by (simp add: NewTransaction_def Let_def add_accounts_Accounts zero_Message_def)

lemma NewTransaction_Instructions:
  "Instructions (Message (NewTransaction srt payer instructions)) =
     map (compile_instruction (map PublicKey (sorted_accounts srt payer instructions))) instructions"
  by (simp add: NewTransaction_def Let_def add_accounts_Accounts add_accounts_rest zero_Message_def)

lemma NewTransaction_RecentBlockhash:
  "RecentBlockhash (Message (NewTransaction srt payer instructions)) = zero_Blockhash"
  by (simp add: NewTransaction_def Let_def add_accounts_rest zero_Message_def)

lemma NewTransaction_Header:
  "NumSignatures (Header (Message (NewTransaction srt payer instructions))) =
     of_nat (length (filter IsSigner (sorted_accounts srt payer instructions)))"
  "NumReadonlySigned (Header (Message (NewTransaction srt payer instructions))) =
     of_nat (length (filter (\<lambda>a. IsSigner a \<and> \<not> IsWritable a) (sorted_accounts srt payer instructions)))"
  "NumReadOnly (Header (Message (NewTransaction srt payer instructions))) =
     of_nat (length (filter (\<lambda>a. \<not> IsSigner a \<and> \<not> IsWritable a) (sorted_accounts srt payer instructions)))"
  by (simp_all add: NewTransaction_def Let_def add_accounts_NumSignatures
      add_accounts_NumReadonlySigned add_accounts_NumReadOnly zero_Message_def)

lemma NewTransaction_Signatures:
  "Signatures (NewTransaction srt payer instructions) =
     replicate (unat (NumSignatures (Header (Message (NewTransaction srt payer instructions)))))
       zero_Signature"
  by (simp add: NewTransaction_def Let_def)

lemma unat_byte_of_nat: "unat (of_nat n :: byte) = n mod 256"
  by (simp add: unat_of_nat)

lemma collect_loop_append:
  "collect_loop acc instructions =
     acc @ concat (map (\<lambda>i. program_meta (Program i) # InstrAccounts i) instructions)"
  by (induction instructions arbitrary: acc) simp_all

lemma collect_accounts_eq:
  "collect_accounts payer instructions =
     payer_meta payer # concat (map (\<lambda>i. program_meta (Program i) # InstrAccounts i) instructions)"
  by (simp add: collect_accounts_def collect_loop_append)

lemma scenario_sorted:
  "sorted_accounts insertionSort key_P [scenario] =
     [payer_meta key_P, caller_meta key_A True True, caller_meta key_B False False,
      program_meta key_G]"
  by (simp add: sorted_accounts_def collect_accounts_eq scenario_def scenario_instruction_def filterUnique_def
      insertionSort_def Less_def payer_meta_def program_meta_def caller_meta_def
      key_P_def key_A_def key_B_def key_G_def)

lemma sort_contract_filter_length:
  "sort_contract srt \<Longrightarrow> length (filter P (srt xs)) = length (filter P xs)"
proof -
  assume "sort_contract srt"
  then have "mset (srt xs) = mset xs" by (simp add: sort_contract_def)
  then have "mset (filter P (srt xs)) = mset (filter P xs)" by simp
  then show ?thesis by (rule mset_eq_length)
qed

lemma many_signers_distinct:
  "distinct (map PublicKey (collect_accounts key_P [many_signers]))"
proof -
  have "inj_on (\<lambda>n. replicate (Suc n) (0::byte)) A" for A
    by (rule inj_onI) (metis length_replicate nat.inject)
  then have "distinct (map (\<lambda>n. replicate (Suc n) (0::byte)) [0..<255])"
    by (simp add: distinct_map)
  then show ?thesis
    by (auto simp: collect_accounts_eq many_signers_def key_P_def key_G_def payer_meta_def
        program_meta_def caller_meta_def comp_def)
qed

lemma many_signers_count:
  "length (filter IsSigner (sorted_accounts insertionSort key_P [many_signers])) = 256"
proof -
  have "length (filter IsSigner (sorted_accounts insertionSort key_P [many_signers])) =
        length (filter IsSigner (collect_accounts key_P [many_signers]))"
    by (simp add: sorted_accounts_def sort_contract_filter_length[OF insertionSort_contract]
        filterUnique_id[OF many_signers_distinct])
  also have "\<dots> = 256"
    by (simp add: collect_accounts_eq many_signers_def payer_meta_def program_meta_def
        caller_meta_def filter_map comp_def)
  finally show ?thesis .
qed

section \<open>Claim about the header counts\<close>

text \<open>
  C4, as stated, fails: the header counters are bytes. With 256 signers
  \<open>NumSignatures\<close> wraps to 0, which is not the number of signer accounts, and no
  signature slot is allocated.
\<close>

theorem NewTransaction_NumSignatures_wraps:
  "length (filter IsSigner (sorted_accounts insertionSort key_P [many_signers])) = 256 \<and>
   unat (NumSignatures (Header (Message (NewTransaction insertionSort key_P [many_signers])))) = 0 \<and>
   Signatures (NewTransaction insertionSort key_P [many_signers]) = []"
  by (simp add: NewTransaction_Signatures NewTransaction_Header many_signers_count)

text \<open>
  C4, amended: for every transaction built by \<open>NewTransaction\<close>, \<open>NumSignatures\<close>,
  \<open>NumReadonlySigned\<close> and \<open>NumReadOnly\<close> are, modulo 256, the numbers of accounts in the
  sorted deduplicated sequence that are signers, read-only signers and read-only
  non-signers (so they are these numbers when the numbers are below 256), and
  \<open>Signatures\<close> has exactly \<open>NumSignatures\<close> slots, each the zero signature of 64 bytes.
\<close>

theorem NewTransaction_header_counts:
  "unat (NumSignatures (Header (Message (NewTransaction srt payer instructions)))) =
     length (filter IsSigner (sorted_accounts srt payer instructions)) mod 256 \<and>
   unat (NumReadonlySigned (Header (Message (NewTransaction srt payer instructions)))) =
     length (filter (\<lambda>a. IsSigner a \<and> \<not> IsWritable a) (sorted_accounts srt payer instructions)) mod 256 \<and>
   unat (NumReadOnly (Header (Message (NewTransaction srt payer instructions)))) =
     length (filter (\<lambda>a. \<not> IsSigner a \<and> \<not> IsWritable a) (sorted_accounts srt payer instructions)) mod 256 \<and>
   Signatures (NewTransaction srt payer instructions) =
     replicate (unat (NumSignatures (Header (Message (NewTransaction srt payer instructions)))))
       (replicate 64 0)"
  by (simp add: NewTransaction_Header unat_byte_of_nat NewTransaction_Signatures
      zero_Signature_def SignatureSize_def)

theorem NewTransaction_header_counts_witness:
  "unat (NumSignatures (Header (Message (NewTransaction insertionSort key_P [scenario])))) = 2 \<and>
   unat (NumReadonlySigned (Header (Message (NewTransaction insertionSort key_P [scenario])))) = 0 \<and>
   unat (NumReadOnly (Header (Message (NewTransaction insertionSort key_P [scenario])))) = 2 \<and>
   Signatures (NewTransaction insertionSort key_P [scenario]) = [replicate 64 0, replicate 64 0]"
proof -
  have n: "replicate 2 x = [x, x]" for x :: "byte list"
    by (simp add: numeral_2_eq_2)
  from NewTransaction_header_counts[of insertionSort key_P "[scenario]"] show ?thesis
    unfolding scenario_sorted
    by (simp add: payer_meta_def program_meta_def caller_meta_def n)
qed

section \<open>Properties of the lookup\<close>

lemma indexOf_from_absent: "item \<notin> set keys \<Longrightarrow> indexOf_from i keys item = -1"
  by (induction keys arbitrary: i) auto

lemma indexOf_from_found:
  "item \<in> set keys \<Longrightarrow>
   i \<le> indexOf_from i keys item \<and> indexOf_from i keys item < i + int (length keys) \<and>
   keys ! nat (indexOf_from i keys item - i) = item"
proof (induction keys arbitrary: i)
  case Nil
  then show ?case by simp
next
  case (Cons val rest)
  show ?case
  proof (cases "val = item")
    case True
    then show ?thesis by simp
  next
    case False
    with Cons.prems have m: "item \<in> set rest" by simp
    from Cons.IH[OF m, of "i + 1"] have
      a: "i + 1 \<le> indexOf_from (i + 1) rest item" and
      b: "indexOf_from (i + 1) rest item < i + 1 + int (length rest)" and
      c: "rest ! nat (indexOf_from (i + 1) rest item - (i + 1)) = item"
      by simp_all
    have "nat (indexOf_from (i + 1) rest item - i) = Suc (nat (indexOf_from (i + 1) rest item - (i + 1)))"
      using a by linarith
    with a b c False show ?thesis by simp
  qed
qed

lemma indexOf_absent: "item \<notin> set keys \<Longrightarrow> indexOf keys item = -1"
  by (simp add: indexOf_def indexOf_from_absent)

lemma indexOf_found:
  "item \<in> set keys \<Longrightarrow>
   0 \<le> indexOf keys item \<and> indexOf keys item < int (length keys) \<and>
   keys ! nat (indexOf keys item) = item"
  using indexOf_from_found[of item keys 0] by (simp add: indexOf_def)

lemma indexOf_negative: "indexOf keys item < 0 \<longleftrightarrow> item \<notin> set keys"
  using indexOf_found[of item keys] indexOf_absent[of item keys] by auto

lemma indexOf_from_nth:
  "distinct keys \<Longrightarrow> n < length keys \<Longrightarrow> indexOf_from i keys (keys ! n) = i + int n"
proof (induction keys arbitrary: i n)
  case Nil
  then show ?case by simp
next
  case (Cons val rest)
  show ?case
  proof (cases n)
    case 0
    then show ?thesis by simp
  next
    case (Suc m)
    with Cons.prems have "val \<noteq> rest ! m" by auto
    with Cons Suc show ?thesis by simp
  qed
qed

lemma indexOf_nth: "distinct keys \<Longrightarrow> n < length keys \<Longrightarrow> indexOf keys (keys ! n) = int n"
  by (simp add: indexOf_def indexOf_from_nth)

lemma unat_byte_of_index: "0 \<le> i \<Longrightarrow> i < 256 \<Longrightarrow> unat (word_of_int i :: byte) = nat i"
  by (simp add: unat_eq_nat_uint uint_word_of_int take_bit_eq_mod)

section \<open>The keys of the account table\<close>

lemma sorted_accounts_set:
  "sort_contract srt \<Longrightarrow>
   set (sorted_accounts srt payer instructions) = set (filterUnique (collect_accounts payer instructions))"
  unfolding sorted_accounts_def sort_contract_def by (metis mset_eq_setD)

lemma sorted_accounts_length:
  "sort_contract srt \<Longrightarrow>
   length (sorted_accounts srt payer instructions) =
   length (filterUnique (collect_accounts payer instructions))"
  unfolding sorted_accounts_def sort_contract_def by (metis mset_eq_length)

lemma sorted_accounts_keyset:
  "sort_contract srt \<Longrightarrow>
   PublicKey ` set (sorted_accounts srt payer instructions) =
   PublicKey ` set (collect_accounts payer instructions)"
  by (simp add: sorted_accounts_set filterUnique_keys)

lemma sorted_accounts_distinct:
  assumes "sort_contract srt"
  shows "distinct (map PublicKey (sorted_accounts srt payer instructions))"
proof -
  have "mset (map PublicKey (sorted_accounts srt payer instructions)) =
        mset (map PublicKey (filterUnique (collect_accounts payer instructions)))"
    using assms by (simp add: sorted_accounts_def sort_contract_def)
  then show ?thesis using filterUnique_distinct by (metis mset_eq_imp_distinct_iff)
qed

lemma program_key_collected:
  "i \<in> set instructions \<Longrightarrow> Program i \<in> PublicKey ` set (collect_accounts payer instructions)"
  by (force simp: collect_accounts_eq program_meta_def)

lemma account_key_collected:
  "i \<in> set instructions \<Longrightarrow> a \<in> set (InstrAccounts i) \<Longrightarrow>
   PublicKey a \<in> PublicKey ` set (collect_accounts payer instructions)"
  by (force simp: collect_accounts_eq)

lemma payer_key_collected: "payer \<in> PublicKey ` set (collect_accounts payer instructions)"
  by (force simp: collect_accounts_eq payer_meta_def)

text \<open>
  Looking a collected key up in the unpadded table and reading the final table at the
  byte of the index gives the key back, padded, when the table has at most 256 entries.
\<close>

lemma lookup_roundtrip:
  assumes srt: "sort_contract srt"
    and len: "length (sorted_accounts srt payer instructions) \<le> 256"
    and k: "k \<in> PublicKey ` set (collect_accounts payer instructions)"
  shows "Accounts (Message (NewTransaction srt payer instructions)) !
           unat (word_of_int (indexOf (map PublicKey (sorted_accounts srt payer instructions)) k) :: byte)
         = pad_key k"
proof -
  let ?T = "map PublicKey (sorted_accounts srt payer instructions)"
  have "k \<in> set ?T" using k sorted_accounts_keyset[OF srt, of payer instructions] by simp
  from indexOf_found[OF this] have
    i: "0 \<le> indexOf ?T k" "indexOf ?T k < int (length ?T)" "?T ! nat (indexOf ?T k) = k"
    by simp_all
  have b: "indexOf ?T k < 256" using i(2) len by simp
  have n: "nat (indexOf ?T k) < length ?T" using i by linarith
  have "Accounts (Message (NewTransaction srt payer instructions)) = map pad_key ?T"
    by (simp add: NewTransaction_Accounts comp_def)
  then show ?thesis
    using n i(3) by (simp only: unat_byte_of_index[OF i(1) b] nth_map)
qed

section \<open>Claim about the index round trip\<close>

text \<open>
  C6, as stated, fails: the instruction is compiled against the table before empty keys
  are replaced. For an instruction whose program key is empty, the table entry at the
  compiled program index is the zero-filled key of 32 bytes, not the original key.
\<close>

theorem NewTransaction_empty_key_no_roundtrip:
  "Accounts (Message (NewTransaction insertionSort key_P [empty_program])) !
     unat (ProgramIndex (Instructions (Message (NewTransaction insertionSort key_P [empty_program])) ! 0))
   \<noteq> Program empty_program"
proof -
  have s: "sorted_accounts insertionSort key_P [empty_program] = [payer_meta key_P, program_meta []]"
    by (simp add: sorted_accounts_def collect_accounts_eq empty_program_def filterUnique_def
      insertionSort_def Less_def payer_meta_def program_meta_def key_P_def)
  show ?thesis
    unfolding NewTransaction_Instructions NewTransaction_Accounts s
    by (simp add: compile_instruction_def indexOf_def empty_program_def payer_meta_def
      program_meta_def key_P_def pad_key_def PublicKeySize_def)
qed

text \<open>
  C6, amended: for every transaction built by \<open>NewTransaction\<close> whose account table has
  at most 256 entries (so that every index fits a byte), and every compiled instruction
  in it, the table entry at the compiled program index is the original instruction's
  program key, and the entry at the k-th compiled account index is the k-th original
  account's key, for every k; where the original key is empty, the entry is the
  zero-filled key of 32 bytes that replaced it.
\<close>

theorem NewTransaction_index_roundtrip:
  assumes "sort_contract srt"
    and "length (sorted_accounts srt payer instructions) \<le> 256"
    and "n < length instructions"
  shows "length (Instructions (Message (NewTransaction srt payer instructions))) = length instructions \<and>
    Accounts (Message (NewTransaction srt payer instructions)) !
        unat (ProgramIndex (Instructions (Message (NewTransaction srt payer instructions)) ! n)) =
      (if Program (instructions ! n) = [] then replicate 32 0 else Program (instructions ! n)) \<and>
    length (CompiledAccounts (Instructions (Message (NewTransaction srt payer instructions)) ! n)) =
      length (InstrAccounts (instructions ! n)) \<and>
    (\<forall>k<length (InstrAccounts (instructions ! n)).
       Accounts (Message (NewTransaction srt payer instructions)) !
         unat (CompiledAccounts (Instructions (Message (NewTransaction srt payer instructions)) ! n) ! k) =
       (if PublicKey (InstrAccounts (instructions ! n) ! k) = [] then replicate 32 0
        else PublicKey (InstrAccounts (instructions ! n) ! k)))"
proof -
  let ?i = "instructions ! n"
  have i: "?i \<in> set instructions" using assms(3) by simp
  have pad: "pad_key k = (if k = [] then replicate 32 0 else k)" for k
    by (simp add: pad_key_def PublicKeySize_def)
  have c: "Instructions (Message (NewTransaction srt payer instructions)) ! n =
           compile_instruction (map PublicKey (sorted_accounts srt payer instructions)) ?i"
    using assms(3) by (simp add: NewTransaction_Instructions)
  have p: "Accounts (Message (NewTransaction srt payer instructions)) !
        unat (ProgramIndex (Instructions (Message (NewTransaction srt payer instructions)) ! n)) =
      pad_key (Program ?i)"
    unfolding c using lookup_roundtrip[OF assms(1,2) program_key_collected[OF i]]
    by (simp add: compile_instruction_def)
  have a: "Accounts (Message (NewTransaction srt payer instructions)) !
         unat (CompiledAccounts (Instructions (Message (NewTransaction srt payer instructions)) ! n) ! k) =
       pad_key (PublicKey (InstrAccounts ?i ! k))" if k: "k < length (InstrAccounts ?i)" for k
    unfolding c
    using lookup_roundtrip[OF assms(1,2) account_key_collected[OF i nth_mem[OF k]]] k
    by (simp add: compile_instruction_def)
  have l: "length (CompiledAccounts (Instructions (Message (NewTransaction srt payer instructions)) ! n)) =
      length (InstrAccounts ?i)"
    unfolding c by (simp add: compile_instruction_def)
  show ?thesis using p a l by (simp add: NewTransaction_Instructions pad)
qed

theorem NewTransaction_index_roundtrip_witness:
  "sort_contract insertionSort \<and>
   length (sorted_accounts insertionSort key_P [scenario]) \<le> 256 \<and>
   (0::nat) < length [scenario] \<and>
   Instructions (Message (NewTransaction insertionSort key_P [scenario])) =
     [\<lparr>ProgramIndex = 3, CompiledAccounts = [1, 2], CompiledData = [5, 6]\<rparr>] \<and>
   Accounts (Message (NewTransaction insertionSort key_P [scenario])) ! 3 = Program scenario \<and>
   Accounts (Message (NewTransaction insertionSort key_P [scenario])) ! 1 = PublicKey (InstrAccounts scenario ! 0) \<and>
   Accounts (Message (NewTransaction insertionSort key_P [scenario])) ! 2 = PublicKey (InstrAccounts scenario ! 1)"
proof -
  have l: "length (sorted_accounts insertionSort key_P [scenario]) \<le> 256"
    by (simp add: scenario_sorted)
  have n: "(0::nat) < length [scenario]" by simp
  have c: "Instructions (Message (NewTransaction insertionSort key_P [scenario])) =
     [\<lparr>ProgramIndex = 3, CompiledAccounts = [1, 2], CompiledData = [5, 6]\<rparr>]"
    unfolding NewTransaction_Instructions scenario_sorted
    by (simp add: compile_instruction_def indexOf_def scenario_def scenario_instruction_def payer_meta_def
      program_meta_def caller_meta_def key_P_def key_A_def key_B_def key_G_def)
  have len: "length (InstrAccounts ([scenario] ! 0)) = 2" by (simp add: scenario_def scenario_instruction_def)
  note r = NewTransaction_index_roundtrip[OF insertionSort_contract l n, unfolded c len]
  have p: "Accounts (Message (NewTransaction insertionSort key_P [scenario])) ! 3 = Program scenario"
    using r by (simp add: scenario_def scenario_instruction_def key_G_def)
  have a0: "Accounts (Message (NewTransaction insertionSort key_P [scenario])) ! 1 =
            PublicKey (InstrAccounts scenario ! 0)"
    using r[THEN conjunct2, THEN conjunct2, THEN conjunct2, rule_format, of 0]
    by (simp add: scenario_def scenario_instruction_def caller_meta_def key_A_def)
  have a1: "Accounts (Message (NewTransaction insertionSort key_P [scenario])) ! 2 =
            PublicKey (InstrAccounts scenario ! 1)"
    using r[THEN conjunct2, THEN conjunct2, THEN conjunct2, rule_format, of 1]
    by (simp add: scenario_def scenario_instruction_def caller_meta_def key_B_def)
  show ?thesis using insertionSort_contract l c p a0 a1 by simp
qed

section \<open>Properties of signing\<close>

lemma Sign_loop_length:
  "length (snd (Sign_loop pub sign mb accounts sigs signers)) = length sigs"
  by (induction signers arbitrary: sigs) (simp_all add: Let_def)

lemma Sign_loop_append:
  "fst (Sign_loop pub sign mb accounts sigs xs) = None \<Longrightarrow>
   Sign_loop pub sign mb accounts sigs (xs @ ys) =
   Sign_loop pub sign mb accounts (snd (Sign_loop pub sign mb accounts sigs xs)) ys"
  by (induction xs arbitrary: sigs) (simp_all add: Let_def split: if_splits)

lemma Sign_loop_passes:
  "fst (Sign_loop pub sign mb accounts sigs signers) = None \<longleftrightarrow>
   (\<forall>s\<in>set signers. 0 \<le> indexOf accounts (pub s) \<and> indexOf accounts (pub s) < int (length sigs))"
  by (induction signers arbitrary: sigs) (auto simp add: Let_def)

lemma Sign_loop_fails:
  "\<not> (0 \<le> indexOf accounts (pub s) \<and> indexOf accounts (pub s) < int (length sigs)) \<Longrightarrow>
   Sign_loop pub sign mb accounts sigs (s # rest) =
     (Some (if indexOf accounts (pub s) < 0 then UnknownSigner else NotASigner), sigs)"
  by (auto simp add: Let_def)

lemma Sign_loop_untouched:
  "j < length sigs \<Longrightarrow> \<forall>s\<in>set signers. indexOf accounts (pub s) \<noteq> int j \<Longrightarrow>
   snd (Sign_loop pub sign mb accounts sigs signers) ! j = sigs ! j"
proof (induction signers arbitrary: sigs)
  case Nil
  then show ?case by simp
next
  case (Cons s signers)
  have "nat (indexOf accounts (pub s)) \<noteq> j" if "0 \<le> indexOf accounts (pub s)"
    using Cons.prems(2) that by auto
  with Cons show ?case by (auto simp add: Let_def)
qed

lemma Sign_loop_written:
  assumes "distinct (map pub signers)"
    and "\<forall>s\<in>set signers. 0 \<le> indexOf accounts (pub s) \<and> indexOf accounts (pub s) < int (length sigs)"
    and "s \<in> set signers"
  shows "snd (Sign_loop pub sign mb accounts sigs signers) ! nat (indexOf accounts (pub s)) =
         copy_bytes (sigs ! nat (indexOf accounts (pub s))) (sign s mb)"
  using assms
proof (induction signers arbitrary: sigs)
  case Nil
  then show ?case by simp
next
  case (Cons x signers)
  let ?sigs' = "sigs[nat (indexOf accounts (pub x)) := copy_bytes (sigs ! nat (indexOf accounts (pub x))) (sign x mb)]"
  have x: "0 \<le> indexOf accounts (pub x)" "indexOf accounts (pub x) < int (length sigs)"
    using Cons.prems(2) by simp_all
  have step: "Sign_loop pub sign mb accounts sigs (x # signers) =
              Sign_loop pub sign mb accounts ?sigs' signers"
    using x by (simp add: Let_def)
  have diff: "indexOf accounts (pub y) \<noteq> indexOf accounts (pub x)" if y: "y \<in> set signers" for y
  proof
    assume e: "indexOf accounts (pub y) = indexOf accounts (pub x)"
    have "pub y \<in> set accounts" "pub x \<in> set accounts"
      using Cons.prems(2) y indexOf_negative[of accounts] by (auto simp: not_less[symmetric])
    then have "pub y = pub x" using indexOf_found[of "pub y" accounts] indexOf_found[of "pub x" accounts] e
      by metis
    with Cons.prems(1) y show False by (auto simp: image_iff)
  qed
  show ?case
  proof (cases "s = x")
    case True
    have "snd (Sign_loop pub sign mb accounts ?sigs' signers) ! nat (indexOf accounts (pub x)) =
          ?sigs' ! nat (indexOf accounts (pub x))"
    proof (rule Sign_loop_untouched)
      show "nat (indexOf accounts (pub x)) < length ?sigs'" using x by simp
      show "\<forall>s\<in>set signers. indexOf accounts (pub s) \<noteq> int (nat (indexOf accounts (pub x)))"
        using diff x by simp
    qed
    then show ?thesis unfolding step True using x by simp
  next
    case False
    with Cons.prems have s: "s \<in> set signers" by simp
    have "snd (Sign_loop pub sign mb accounts ?sigs' signers) ! nat (indexOf accounts (pub s)) =
          copy_bytes (?sigs' ! nat (indexOf accounts (pub s))) (sign s mb)"
      using Cons.prems s by (intro Cons.IH) simp_all
    moreover have "nat (indexOf accounts (pub s)) \<noteq> nat (indexOf accounts (pub x))"
      using diff[OF s] x Cons.prems(2) s by auto
    ultimately show ?thesis unfolding step by simp
  qed
qed

lemma Sign_eq:
  "Sign pub sign marshal t signers =
     (fst (Sign_loop pub sign (marshal (Message t)) (Accounts (Message t)) (Signatures t) signers),
      t\<lparr>Signatures := snd (Sign_loop pub sign (marshal (Message t)) (Accounts (Message t))
                          (Signatures t) signers)\<rparr>)"
  by (simp add: Sign_def Let_def split: prod.splits)

lemma Sign_Message: "Message (snd (Sign pub sign marshal t signers)) = Message t"
  by (simp add: Sign_eq)

lemma Sign_length: "length (Signatures (snd (Sign pub sign marshal t signers))) = length (Signatures t)"
  by (simp add: Sign_eq Sign_loop_length)

lemma Sign_passes:
  "fst (Sign pub sign marshal t signers) = None \<longleftrightarrow> (\<forall>s\<in>set signers. passes pub t s)"
  by (simp add: Sign_eq Sign_loop_passes passes_def slot_of_def)

lemma Sign_stops:
  assumes "\<forall>s\<in>set pre. passes pub t s" and "\<not> passes pub t k"
  shows "Sign pub sign marshal t (pre @ k # rest) =
     (Some (if slot_of pub t k < 0 then UnknownSigner else NotASigner),
      snd (Sign pub sign marshal t pre))"
proof -
  let ?L = "Sign_loop pub sign (marshal (Message t)) (Accounts (Message t))"
  have ok: "fst (?L (Signatures t) pre) = None"
    using assms(1) by (simp add: Sign_loop_passes passes_def slot_of_def)
  have bad: "\<not> (0 \<le> indexOf (Accounts (Message t)) (pub k) \<and>
     indexOf (Accounts (Message t)) (pub k) < int (length (snd (?L (Signatures t) pre))))"
    using assms(2) by (simp add: passes_def slot_of_def Sign_loop_length)
  have "?L (Signatures t) (pre @ k # rest) =
     (Some (if indexOf (Accounts (Message t)) (pub k) < 0 then UnknownSigner else NotASigner),
      snd (?L (Signatures t) pre))"
    by (simp only: Sign_loop_append[OF ok]
        Sign_loop_fails[of "Accounts (Message t)" pub k _ sign "marshal (Message t)" rest, OF bad])
  then show ?thesis by (simp add: Sign_eq slot_of_def)
qed

lemma find_split:
  "find P xs = Some x \<Longrightarrow> xs = takeWhile (\<lambda>y. \<not> P y) xs @ x # tl (dropWhile (\<lambda>y. \<not> P y) xs) \<and> P x"
  by (induction xs) (auto split: if_splits)

lemma NewTransaction_slots_match_header:
  "slots_match_header (NewTransaction srt payer instructions)"
  by (simp add: slots_match_header_def NewTransaction_Signatures)

lemma SetBlockhash_slots_match_header:
  "slots_match_header t \<Longrightarrow> slots_match_header (SetBlockhash bh t)"
  by (simp add: slots_match_header_def SetBlockhash_def)

lemma Sign_slots_match_header:
  "slots_match_header t \<Longrightarrow> slots_match_header (snd (Sign pub sign marshal t signers))"
  by (simp add: slots_match_header_def Sign_length Sign_Message)

lemma passes_declared:
  "slots_match_header t \<Longrightarrow> passes pub t s \<longleftrightarrow> declared_signer pub t s"
  using indexOf_negative[of "Accounts (Message t)" "pub s"]
  by (auto simp add: passes_def declared_signer_def slots_match_header_def slot_of_def)

lemma scenario_tx_eq:
  "scenario_tx =
     \<lparr>Signatures = [replicate 64 0, replicate 64 0],
      Message = \<lparr>Header = \<lparr>NumSignatures = 2, NumReadonlySigned = 0, NumReadOnly = 2\<rparr>,
                 Accounts = [key_P, key_A, key_B, key_G],
                 RecentBlockhash = replicate 32 0,
                 Instructions = [\<lparr>ProgramIndex = 3, CompiledAccounts = [1, 2], CompiledData = [5, 6]\<rparr>]\<rparr>\<rparr>"
proof -
  have n: "replicate 2 x = [x, x]" for x :: "byte list"
    by (simp add: numeral_2_eq_2)
  have i: "indexOf [key_P, key_A, key_B, key_G] key_G = 3"
          "indexOf [key_P, key_A, key_B, key_G] key_A = 1"
          "indexOf [key_P, key_A, key_B, key_G] key_B = 2"
    by (simp_all add: indexOf_def key_P_def key_A_def key_B_def key_G_def)
  have p: "pad_key key_P = key_P" "pad_key key_A = key_A" "pad_key key_B = key_B" "pad_key key_G = key_G"
    by (simp_all add: pad_key_def key_P_def key_A_def key_B_def key_G_def)
  show ?thesis
    unfolding scenario_tx_def NewTransaction_def Let_def scenario_sorted
    by (simp add: add_account_def zero_Message_def zero_Blockhash_def zero_Signature_def
      SignatureSize_def payer_meta_def program_meta_def caller_meta_def compile_instruction_def
      scenario_def scenario_instruction_def i p n)
qed

section \<open>Claims about signing\<close>

text \<open>
  C5, as stated, fails: \<open>Sign\<close> compares the index of a key with \<open>len(t.Signatures)\<close>,
  not with \<open>header.NumSignatures\<close>. On a transaction with three slots whose header
  declares two signers, the key of \<open>B\<close>, at index 2 of the account table, is at or above
  \<open>header.NumSignatures\<close> and yet \<open>Sign\<close> returns no error and writes slot 2.
\<close>

theorem Sign_checks_slots_not_header:
  "demo_pub priv_B \<in> set (Accounts (Message oversized_tx)) \<and>
   indexOf (Accounts (Message oversized_tx)) (demo_pub priv_B) = 2 \<and>
   unat (NumSignatures (Header (Message oversized_tx))) = 2 \<and>
   Sign demo_pub demo_sign demo_marshal oversized_tx [priv_B] =
     (None, oversized_tx\<lparr>Signatures := [replicate 64 0, replicate 64 0, replicate 64 14]\<rparr>)"
  by (simp add: oversized_tx_def scenario_tx_eq Sign_def demo_pub_def demo_sign_def indexOf_def
      copy_bytes_def priv_B_def key_P_def key_A_def key_B_def key_G_def)

text \<open>
  C5, amended: \<open>Sign\<close> is decided by the first supplied key that does not pass its check,
  the check being that the key's public key is in the account table at an index below
  \<open>len(t.Signatures)\<close>. With no such key it returns no error; otherwise the error is
  \<open>UnknownSigner\<close> exactly when that key has no byte-equal entry in the account table and
  \<open>NotASigner\<close> exactly when it has one, at an index at or above \<open>len(t.Signatures)\<close>, and
  the call has processed only the keys before it. \<open>len(t.Signatures)\<close> is
  \<open>header.NumSignatures\<close> on every transaction built by \<open>NewTransaction\<close>, and
  \<open>SetBlockhash\<close> and \<open>Sign\<close> keep them equal; on such a transaction \<open>NotASigner\<close> is
  returned exactly when the key's index is at or above \<open>header.NumSignatures\<close>.
\<close>

theorem Sign_error_kinds:
  "fst (Sign pub sign marshal t signers) =
      (case find (\<lambda>s. \<not> passes pub t s) signers of
         None \<Rightarrow> None
       | Some s \<Rightarrow> Some (if pub s \<notin> set (Accounts (Message t)) then UnknownSigner else NotASigner)) \<and>
    snd (Sign pub sign marshal t signers) =
      snd (Sign pub sign marshal t (takeWhile (passes pub t) signers)) \<and>
    (passes pub t k \<longleftrightarrow>
       pub k \<in> set (Accounts (Message t)) \<and>
       indexOf (Accounts (Message t)) (pub k) < int (length (Signatures t))) \<and>
    (fst (Sign pub sign marshal t [k]) = Some UnknownSigner \<longleftrightarrow>
       pub k \<notin> set (Accounts (Message t))) \<and>
    (fst (Sign pub sign marshal t [k]) = Some NotASigner \<longleftrightarrow>
       pub k \<in> set (Accounts (Message t)) \<and>
       indexOf (Accounts (Message t)) (pub k) \<ge> int (length (Signatures t))) \<and>
    length (Signatures (NewTransaction srt payer instructions)) =
      unat (NumSignatures (Header (Message (NewTransaction srt payer instructions)))) \<and>
    (length (Signatures t) = unat (NumSignatures (Header (Message t))) \<longrightarrow>
       length (Signatures (SetBlockhash bh t)) =
         unat (NumSignatures (Header (Message (SetBlockhash bh t)))) \<and>
       length (Signatures (snd (Sign pub sign marshal t signers))) =
         unat (NumSignatures (Header (Message (snd (Sign pub sign marshal t signers))))) \<and>
       (fst (Sign pub sign marshal t [k]) = Some NotASigner \<longleftrightarrow>
          pub k \<in> set (Accounts (Message t)) \<and>
          indexOf (Accounts (Message t)) (pub k) \<ge>
            int (unat (NumSignatures (Header (Message t))))))"
proof -
  have neg: "slot_of pub t s < 0 \<longleftrightarrow> pub s \<notin> set (Accounts (Message t))" for s
    by (simp add: slot_of_def indexOf_negative)
  have pk: "passes pub t s \<longleftrightarrow>
       pub s \<in> set (Accounts (Message t)) \<and>
       indexOf (Accounts (Message t)) (pub s) < int (length (Signatures t))" for s
    using neg[of s] by (auto simp add: passes_def slot_of_def)
  have list: "fst (Sign pub sign marshal t xs) =
      (case find (\<lambda>s. \<not> passes pub t s) xs of
         None \<Rightarrow> None
       | Some s \<Rightarrow> Some (if pub s \<notin> set (Accounts (Message t)) then UnknownSigner else NotASigner)) \<and>
    snd (Sign pub sign marshal t xs) =
      snd (Sign pub sign marshal t (takeWhile (passes pub t) xs))" for xs
  proof (cases "find (\<lambda>s. \<not> passes pub t s) xs")
    case None
    then have all: "\<forall>s\<in>set xs. passes pub t s" by (simp add: find_None_iff)
    then have tw: "takeWhile (passes pub t) xs = xs" by (simp add: takeWhile_eq_all_conv)
    have "fst (Sign pub sign marshal t xs) = None"
      using all by (simp add: Sign_passes)
    then show ?thesis by (simp add: None tw)
  next
    case (Some s)
    from find_split[OF Some] obtain rest where
      xs: "xs = takeWhile (passes pub t) xs @ s # rest" and s: "\<not> passes pub t s"
      by auto
    let ?pre = "takeWhile (passes pub t) xs"
    have pre: "\<forall>x\<in>set ?pre. passes pub t x" by (auto dest: set_takeWhileD)
    have "Sign pub sign marshal t (?pre @ s # rest) =
       (Some (if slot_of pub t s < 0 then UnknownSigner else NotASigner),
        snd (Sign pub sign marshal t ?pre))"
      using pre s by (rule Sign_stops)
    then have "Sign pub sign marshal t xs =
       (Some (if slot_of pub t s < 0 then UnknownSigner else NotASigner),
        snd (Sign pub sign marshal t ?pre))"
      using xs by simp
    then show ?thesis using Some by (simp add: neg)
  qed
  have single: "fst (Sign pub sign marshal t [k]) =
      (if passes pub t k then None
       else Some (if pub k \<notin> set (Accounts (Message t)) then UnknownSigner else NotASigner))"
    using list[of "[k]"] by simp
  have u: "fst (Sign pub sign marshal t [k]) = Some UnknownSigner \<longleftrightarrow>
       pub k \<notin> set (Accounts (Message t))"
    unfolding single by (auto simp: pk)
  have n: "fst (Sign pub sign marshal t [k]) = Some NotASigner \<longleftrightarrow>
       pub k \<in> set (Accounts (Message t)) \<and>
       indexOf (Accounts (Message t)) (pub k) \<ge> int (length (Signatures t))"
    unfolding single by (auto simp: pk)
  have new: "length (Signatures (NewTransaction srt payer instructions)) =
      unat (NumSignatures (Header (Message (NewTransaction srt payer instructions))))"
    using NewTransaction_slots_match_header[of srt payer instructions]
    by (simp add: slots_match_header_def)
  have keep: "length (Signatures (SetBlockhash bh t)) =
         unat (NumSignatures (Header (Message (SetBlockhash bh t)))) \<and>
       length (Signatures (snd (Sign pub sign marshal t signers))) =
         unat (NumSignatures (Header (Message (snd (Sign pub sign marshal t signers))))) \<and>
       (fst (Sign pub sign marshal t [k]) = Some NotASigner \<longleftrightarrow>
          pub k \<in> set (Accounts (Message t)) \<and>
          indexOf (Accounts (Message t)) (pub k) \<ge>
            int (unat (NumSignatures (Header (Message t)))))"
    if m: "length (Signatures t) = unat (NumSignatures (Header (Message t)))"
  proof -
    have w: "slots_match_header t" using m by (simp add: slots_match_header_def)
    show ?thesis
      using SetBlockhash_slots_match_header[OF w, of bh]
        Sign_slots_match_header[OF w, of pub sign marshal signers] n
      by (simp add: slots_match_header_def m)
  qed
  show ?thesis using list[of signers] pk[of k] u n new keep by blast
qed

theorem Sign_error_kinds_witness:
  "length (Signatures scenario_tx) = unat (NumSignatures (Header (Message scenario_tx))) \<and>
   fst (Sign demo_pub demo_sign demo_marshal scenario_tx [priv_P, priv_X, priv_G]) = Some UnknownSigner \<and>
   fst (Sign demo_pub demo_sign demo_marshal scenario_tx [priv_P, priv_G, priv_X]) = Some NotASigner \<and>
   fst (Sign demo_pub demo_sign demo_marshal scenario_tx [priv_P, priv_A]) = None \<and>
   snd (Sign demo_pub demo_sign demo_marshal scenario_tx [priv_P, priv_G, priv_A]) =
     snd (Sign demo_pub demo_sign demo_marshal scenario_tx [priv_P]) \<and>
   fst (Sign demo_pub demo_sign demo_marshal scenario_tx [priv_G]) = Some NotASigner \<and>
   indexOf (Accounts (Message scenario_tx)) (demo_pub priv_G) \<ge>
     int (unat (NumSignatures (Header (Message scenario_tx))))"
proof -
  have w: "length (Signatures scenario_tx) = unat (NumSignatures (Header (Message scenario_tx)))"
    by (simp add: scenario_tx_eq)
  have d: "passes demo_pub scenario_tx priv_P" "passes demo_pub scenario_tx priv_A"
    "\<not> passes demo_pub scenario_tx priv_G" "\<not> passes demo_pub scenario_tx priv_X"
    by (simp_all add: passes_def slot_of_def scenario_tx_eq demo_pub_def indexOf_def
      priv_P_def priv_A_def priv_G_def priv_X_def key_P_def key_A_def key_B_def key_G_def)
  have m: "demo_pub priv_X \<notin> set (Accounts (Message scenario_tx))"
    "demo_pub priv_G \<in> set (Accounts (Message scenario_tx))"
    by (simp_all add: scenario_tx_eq demo_pub_def priv_G_def priv_X_def
      key_P_def key_A_def key_B_def key_G_def)
  have g: "indexOf (Accounts (Message scenario_tx)) (demo_pub priv_G) \<ge>
     int (unat (NumSignatures (Header (Message scenario_tx))))"
    by (simp add: scenario_tx_eq demo_pub_def indexOf_def priv_G_def
      key_P_def key_A_def key_B_def key_G_def)
  note L = Sign_error_kinds[of demo_pub demo_sign demo_marshal scenario_tx]
  have single: "fst (Sign demo_pub demo_sign demo_marshal scenario_tx [priv_G]) = Some NotASigner"
    using L[of "[priv_G]" priv_G] w m g by blast
  have u: "fst (Sign demo_pub demo_sign demo_marshal scenario_tx [priv_P, priv_X, priv_G]) =
           Some UnknownSigner"
    using L[of "[priv_P, priv_X, priv_G]", THEN conjunct1] by (simp add: d m)
  have n: "fst (Sign demo_pub demo_sign demo_marshal scenario_tx [priv_P, priv_G, priv_X]) =
           Some NotASigner"
    using L[of "[priv_P, priv_G, priv_X]", THEN conjunct1] by (simp add: d m)
  have ok: "fst (Sign demo_pub demo_sign demo_marshal scenario_tx [priv_P, priv_A]) = None"
    using L[of "[priv_P, priv_A]", THEN conjunct1] by (simp add: d)
  have st: "snd (Sign demo_pub demo_sign demo_marshal scenario_tx [priv_P, priv_G, priv_A]) =
     snd (Sign demo_pub demo_sign demo_marshal scenario_tx [priv_P])"
    using L[of "[priv_P, priv_G, priv_A]", THEN conjunct2, THEN conjunct1] by (simp add: d)
  show ?thesis using w g single u n ok st by simp
qed

text \<open>
  C9: \<open>Sign\<close> is not atomic. When the keys before \<open>k\<close> pass the check and \<open>k\<close> fails it,
  the call returns the error of \<open>k\<close> and leaves the transaction as signing just the keys
  before \<open>k\<close> leaves it: their signatures are written and stay (for distinct keys, each
  slot holds its key's signature copied into the slot), every slot that is not the slot
  of a key before \<open>k\<close> is as before the call, and nothing after \<open>k\<close> is processed. \<open>Sign\<close>
  never changes the message.
\<close>

theorem Sign_not_atomic:
  assumes "\<forall>s\<in>set pre. passes pub t s" and "\<not> passes pub t k"
  shows "fst (Sign pub sign marshal t (pre @ k # rest)) =
      Some (if slot_of pub t k < 0 then UnknownSigner else NotASigner) \<and>
    snd (Sign pub sign marshal t (pre @ k # rest)) = snd (Sign pub sign marshal t pre) \<and>
    fst (Sign pub sign marshal t pre) = None \<and>
    length (Signatures (snd (Sign pub sign marshal t (pre @ k # rest)))) = length (Signatures t) \<and>
    (\<forall>j<length (Signatures t). (\<forall>s\<in>set pre. slot_of pub t s \<noteq> int j) \<longrightarrow>
       Signatures (snd (Sign pub sign marshal t (pre @ k # rest))) ! j = Signatures t ! j) \<and>
    (distinct (map pub pre) \<longrightarrow>
       (\<forall>s\<in>set pre.
          Signatures (snd (Sign pub sign marshal t (pre @ k # rest))) ! nat (slot_of pub t s) =
          copy_bytes (Signatures t ! nat (slot_of pub t s)) (sign s (marshal (Message t))))) \<and>
    Message (snd (Sign pub sign marshal t signers)) = Message t"
proof -
  have stop: "Sign pub sign marshal t (pre @ k # rest) =
     (Some (if slot_of pub t k < 0 then UnknownSigner else NotASigner),
      snd (Sign pub sign marshal t pre))"
    by (rule Sign_stops[OF assms])
  have ok: "fst (Sign pub sign marshal t pre) = None"
    using assms(1) by (simp add: Sign_passes)
  have idx: "\<forall>s\<in>set pre. 0 \<le> indexOf (Accounts (Message t)) (pub s) \<and>
      indexOf (Accounts (Message t)) (pub s) < int (length (Signatures t))"
    using assms(1) by (simp add: passes_def slot_of_def)
  have untouched: "Signatures (snd (Sign pub sign marshal t pre)) ! j = Signatures t ! j"
    if "j < length (Signatures t)" "\<forall>s\<in>set pre. slot_of pub t s \<noteq> int j" for j
    using that by (simp add: Sign_eq slot_of_def Sign_loop_untouched)
  have written: "Signatures (snd (Sign pub sign marshal t pre)) ! nat (slot_of pub t s) =
          copy_bytes (Signatures t ! nat (slot_of pub t s)) (sign s (marshal (Message t)))"
    if "distinct (map pub pre)" "s \<in> set pre" for s
    using Sign_loop_written[OF that(1) idx that(2)] by (simp add: Sign_eq slot_of_def)
  show ?thesis
    unfolding stop using ok untouched written by (simp add: Sign_length Sign_Message)
qed

theorem Sign_not_atomic_witness:
  "passes demo_pub scenario_tx priv_P \<and> \<not> passes demo_pub scenario_tx priv_G \<and>
   Sign demo_pub demo_sign demo_marshal scenario_tx [priv_P, priv_G, priv_A] =
     (Some NotASigner, scenario_tx\<lparr>Signatures := [replicate 64 10, replicate 64 0]\<rparr>) \<and>
   Sign demo_pub demo_sign demo_marshal scenario_tx [priv_P] =
     (None, scenario_tx\<lparr>Signatures := [replicate 64 10, replicate 64 0]\<rparr>)"
proof -
  have p: "passes demo_pub scenario_tx priv_P" and g: "\<not> passes demo_pub scenario_tx priv_G"
    by (simp_all add: passes_def slot_of_def scenario_tx_eq demo_pub_def indexOf_def
      priv_P_def priv_G_def key_P_def key_A_def key_B_def key_G_def)
  have s: "slot_of demo_pub scenario_tx priv_G = 3"
    by (simp add: slot_of_def scenario_tx_eq demo_pub_def indexOf_def
      priv_G_def key_P_def key_A_def key_B_def key_G_def)
  have one: "Sign demo_pub demo_sign demo_marshal scenario_tx [priv_P] =
     (None, scenario_tx\<lparr>Signatures := [replicate 64 10, replicate 64 0]\<rparr>)"
    by (simp add: Sign_def scenario_tx_eq demo_pub_def demo_sign_def indexOf_def copy_bytes_def
      priv_P_def key_P_def key_A_def key_B_def key_G_def)
  have pre: "\<forall>s\<in>set [priv_P]. passes demo_pub scenario_tx s" using p by simp
  from Sign_not_atomic[OF pre g, of demo_sign demo_marshal "[priv_A]"]
  have "Sign demo_pub demo_sign demo_marshal scenario_tx [priv_P, priv_G, priv_A] =
     (Some NotASigner, snd (Sign demo_pub demo_sign demo_marshal scenario_tx [priv_P]))"
    by (simp add: s prod_eq_iff)
  then show ?thesis using p g one by simp
qed

section \<open>Properties of the sorted account sequence\<close>

lemma sort_contract_rank:
  "sort_contract srt \<Longrightarrow> sorted_wrt (\<lambda>a b. rank a \<le> rank b) (srt xs)"
  by (simp add: sort_contract_def Less_rank not_less)

lemma sorted_prefix_iff:
  fixes f :: "'a \<Rightarrow> nat"
  shows "sorted_wrt (\<lambda>a b. f a \<le> f b) xs \<Longrightarrow> i < length xs \<Longrightarrow>
         i < length (filter (\<lambda>a. f a \<le> c) xs) \<longleftrightarrow> f (xs ! i) \<le> c"
proof (induction xs arbitrary: i)
  case Nil
  then show ?case by simp
next
  case (Cons x xs)
  show ?case
  proof (cases "f x \<le> c")
    case True
    with Cons show ?thesis by (cases i) simp_all
  next
    case False
    with Cons.prems(1) have all: "\<forall>y\<in>set (x # xs). \<not> f y \<le> c" by auto
    then have "filter (\<lambda>a. f a \<le> c) (x # xs) = []" by (simp add: filter_empty_conv)
    moreover have "\<not> f ((x # xs) ! i) \<le> c" using all Cons.prems(2) nth_mem by blast
    ultimately show ?thesis by simp
  qed
qed

lemma class_le_of_rank_le:
  "isPayer a \<longrightarrow> IsSigner a \<and> IsWritable a \<Longrightarrow> isPayer b \<longrightarrow> IsSigner b \<and> IsWritable b \<Longrightarrow>
   rank a \<le> rank b \<Longrightarrow> permission_class a \<le> permission_class b"
  by (auto simp: rank_def permission_class_def split: if_splits)

lemma collected_isPayer:
  assumes "\<forall>i\<in>set instructions. \<forall>a\<in>set (InstrAccounts i). \<not> isPayer a"
    and "x \<in> set (collect_accounts payer instructions)" and "isPayer x"
  shows "x = payer_meta payer"
  using assms by (auto simp: collect_accounts_eq program_meta_def)

lemma payer_entry:
  assumes nop: "\<forall>i\<in>set instructions. \<forall>a\<in>set (InstrAccounts i). \<not> isPayer a"
    and f: "f \<in> set (filterUnique (collect_accounts payer instructions))"
  shows "isPayer f \<longleftrightarrow> PublicKey f = payer"
    and "PublicKey f = payer \<Longrightarrow> IsSigner f \<and> IsWritable f"
proof -
  let ?C = "collect_accounts payer instructions"
  have pm: "payer_meta payer \<in> set ?C" by (simp add: collect_accounts_eq)
  have "isPayer f \<longleftrightarrow> (\<exists>x\<in>set ?C. PublicKey x = PublicKey f \<and> isPayer x)"
    by (rule filterUnique_flag[OF _ f]) simp
  also have "\<dots> \<longleftrightarrow> PublicKey f = payer"
  proof
    assume "\<exists>x\<in>set ?C. PublicKey x = PublicKey f \<and> isPayer x"
    then obtain x where x: "x \<in> set ?C" "PublicKey x = PublicKey f" "isPayer x" by blast
    from collected_isPayer[OF nop x(1,3)] x(2) show "PublicKey f = payer"
      by (simp add: payer_meta_def)
  next
    assume "PublicKey f = payer"
    with pm show "\<exists>x\<in>set ?C. PublicKey x = PublicKey f \<and> isPayer x"
      by (intro bexI[of _ "payer_meta payer"]) (simp_all add: payer_meta_def)
  qed
  finally show "isPayer f \<longleftrightarrow> PublicKey f = payer" .
  assume k: "PublicKey f = payer"
  have "IsSigner f \<longleftrightarrow> (\<exists>x\<in>set ?C. PublicKey x = PublicKey f \<and> IsSigner x)"
    by (rule filterUnique_flag[OF _ f]) simp
  moreover have "IsWritable f \<longleftrightarrow> (\<exists>x\<in>set ?C. PublicKey x = PublicKey f \<and> IsWritable x)"
    by (rule filterUnique_flag[OF _ f]) simp
  moreover have "PublicKey (payer_meta payer) = PublicKey f \<and> IsSigner (payer_meta payer) \<and>
    IsWritable (payer_meta payer)" using k by (simp add: payer_meta_def)
  ultimately show "IsSigner f \<and> IsWritable f" using pm by blast
qed

lemma sorted_accounts_classes:
  assumes srt: "sort_contract srt"
    and nop: "\<forall>i\<in>set instructions. \<forall>a\<in>set (InstrAccounts i). \<not> isPayer a"
  shows "sorted_wrt (\<lambda>a b. permission_class a \<le> permission_class b)
           (sorted_accounts srt payer instructions)"
proof -
  let ?A = "sorted_accounts srt payer instructions"
  have r: "sorted_wrt (\<lambda>a b. rank a \<le> rank b) ?A"
    unfolding sorted_accounts_def by (rule sort_contract_rank[OF srt])
  have p: "isPayer f \<longrightarrow> IsSigner f \<and> IsWritable f" if "f \<in> set ?A" for f
    using payer_entry[OF nop, of f payer] that sorted_accounts_set[OF srt, of payer instructions]
    by blast
  show ?thesis
    by (rule sorted_wrt_mono_rel[OF _ r]) (simp add: class_le_of_rank_le p)
qed

lemma sorted_accounts_head:
  assumes srt: "sort_contract srt"
    and nop: "\<forall>i\<in>set instructions. \<forall>a\<in>set (InstrAccounts i). \<not> isPayer a"
  shows "sorted_accounts srt payer instructions \<noteq> [] \<and>
    PublicKey (sorted_accounts srt payer instructions ! 0) = payer \<and>
    IsSigner (sorted_accounts srt payer instructions ! 0) \<and>
    IsWritable (sorted_accounts srt payer instructions ! 0) \<and>
    isPayer (sorted_accounts srt payer instructions ! 0)"
proof -
  let ?A = "sorted_accounts srt payer instructions"
  have set_eq: "set ?A = set (filterUnique (collect_accounts payer instructions))"
    by (rule sorted_accounts_set[OF srt])
  have "payer \<in> PublicKey ` set ?A"
    using sorted_accounts_keyset[OF srt, of payer instructions] payer_key_collected by simp
  then obtain e where e: "e \<in> set ?A" "PublicKey e = payer" by auto
  then have ne: "?A \<noteq> []" by auto
  have pe: "isPayer e" using payer_entry(1)[OF nop, of e payer] e set_eq by simp
  have r: "sorted_wrt (\<lambda>a b. rank a \<le> rank b) ?A"
    unfolding sorted_accounts_def by (rule sort_contract_rank[OF srt])
  have h: "?A ! 0 \<in> set ?A" using ne by simp
  have "rank (?A ! 0) \<le> rank e"
  proof (cases "e = ?A ! 0")
    case True
    then show ?thesis by simp
  next
    case False
    from e(1) obtain n where n: "n < length ?A" "?A ! n = e" by (auto simp: in_set_conv_nth)
    with False have "0 < n" by (cases n) auto
    with r n show ?thesis by (auto simp: sorted_wrt_iff_nth_less)
  qed
  moreover have "rank e < 8" using pe by (simp add: rank_def)
  ultimately have "isPayer (?A ! 0)" by (auto simp: rank_def split: if_splits)
  with payer_entry[OF nop, of "?A ! 0" payer] h set_eq ne show ?thesis by simp
qed

lemma filter_signers_split:
  "length (filter IsSigner xs) =
     length (filter (\<lambda>a. IsSigner a \<and> IsWritable a) xs) +
     length (filter (\<lambda>a. IsSigner a \<and> \<not> IsWritable a) xs)"
  by (induction xs) auto

lemma filter_class_complement:
  "length (filter (\<lambda>a. permission_class a \<le> 2) xs) +
   length (filter (\<lambda>a. \<not> IsSigner a \<and> \<not> IsWritable a) xs) = length xs"
  by (induction xs) (auto simp: permission_class_def)

lemma permission_class_simps:
  "permission_class a \<le> 1 \<longleftrightarrow> IsSigner a"
  "permission_class a \<le> 0 \<longleftrightarrow> IsSigner a \<and> IsWritable a"
  "permission_class a \<le> 2 \<longleftrightarrow> \<not> (\<not> IsSigner a \<and> \<not> IsWritable a)"
  by (auto simp: permission_class_def)

section \<open>Claims about the order of the account table\<close>

text \<open>
  C1, as stated, fails: with 256 signers \<open>NumSignatures\<close> wraps to 0, so index 0, which
  holds a signer (the payer), is not in the range below \<open>NumSignatures\<close>.
\<close>

theorem NewTransaction_partition_wraps:
  "IsSigner (sorted_accounts insertionSort key_P [many_signers] ! 0) \<and>
   \<not> 0 < unat (NumSignatures (Header (Message (NewTransaction insertionSort key_P [many_signers]))))"
proof -
  have "\<forall>i\<in>set [many_signers]. \<forall>a\<in>set (InstrAccounts i). \<not> isPayer a"
    by (simp add: many_signers_def caller_meta_def)
  from sorted_accounts_head[OF insertionSort_contract this, of key_P] show ?thesis
    by (simp add: NewTransaction_Header many_signers_count)
qed

text \<open>
  C1, amended: for every transaction built by \<open>NewTransaction\<close> from instructions whose
  account references are built by a caller (the unexported \<open>isPayer\<close> flag unset), and in
  which fewer than 256 accounts are signers and fewer than 256 are read-only non-signers
  (so that no header counter wraps), the account table is partitioned by the header: an
  index is below \<open>NumSignatures\<close> exactly when its account is a signer, below
  \<open>NumSignatures - NumReadonlySigned\<close> exactly when it is a writable signer, and at or
  above \<open>len(Accounts) - NumReadOnly\<close> exactly when it is a read-only non-signer. The
  table holds the keys of the sorted deduplicated sequence, index by index (an empty key
  as 32 zero bytes).
\<close>

theorem NewTransaction_partition:
  assumes "sort_contract srt"
    and "\<forall>i\<in>set instructions. \<forall>a\<in>set (InstrAccounts i). \<not> isPayer a"
    and "length (filter IsSigner (sorted_accounts srt payer instructions)) < 256"
    and "length (filter (\<lambda>a. \<not> IsSigner a \<and> \<not> IsWritable a)
           (sorted_accounts srt payer instructions)) < 256"
    and "i < length (sorted_accounts srt payer instructions)"
  shows "length (Accounts (Message (NewTransaction srt payer instructions))) =
      length (sorted_accounts srt payer instructions) \<and>
    Accounts (Message (NewTransaction srt payer instructions)) ! i =
      (if PublicKey (sorted_accounts srt payer instructions ! i) = [] then replicate 32 0
       else PublicKey (sorted_accounts srt payer instructions ! i)) \<and>
    (i < unat (NumSignatures (Header (Message (NewTransaction srt payer instructions)))) \<longleftrightarrow>
       IsSigner (sorted_accounts srt payer instructions ! i)) \<and>
    (i < unat (NumSignatures (Header (Message (NewTransaction srt payer instructions)))) -
         unat (NumReadonlySigned (Header (Message (NewTransaction srt payer instructions)))) \<longleftrightarrow>
       IsSigner (sorted_accounts srt payer instructions ! i) \<and>
       IsWritable (sorted_accounts srt payer instructions ! i)) \<and>
    (length (Accounts (Message (NewTransaction srt payer instructions))) -
         unat (NumReadOnly (Header (Message (NewTransaction srt payer instructions)))) \<le> i \<longleftrightarrow>
       \<not> IsSigner (sorted_accounts srt payer instructions ! i) \<and>
       \<not> IsWritable (sorted_accounts srt payer instructions ! i))"
proof -
  let ?A = "sorted_accounts srt payer instructions"
  let ?H = "Header (Message (NewTransaction srt payer instructions))"
  let ?nS = "length (filter IsSigner ?A)"
  let ?nSW = "length (filter (\<lambda>a. IsSigner a \<and> IsWritable a) ?A)"
  let ?nSR = "length (filter (\<lambda>a. IsSigner a \<and> \<not> IsWritable a) ?A)"
  let ?nRO = "length (filter (\<lambda>a. \<not> IsSigner a \<and> \<not> IsWritable a) ?A)"
  have split: "?nS = ?nSW + ?nSR" by (rule filter_signers_split)
  have uS: "unat (NumSignatures ?H) = ?nS"
    using assms(3) by (simp add: NewTransaction_Header unat_byte_of_nat)
  have uSR: "unat (NumReadonlySigned ?H) = ?nSR"
    using assms(3) split by (simp add: NewTransaction_Header unat_byte_of_nat)
  have uRO: "unat (NumReadOnly ?H) = ?nRO"
    using assms(4) by (simp add: NewTransaction_Header unat_byte_of_nat)
  have len: "length (Accounts (Message (NewTransaction srt payer instructions))) = length ?A"
    by (simp add: NewTransaction_Accounts)
  have key: "Accounts (Message (NewTransaction srt payer instructions)) ! i =
      (if PublicKey (?A ! i) = [] then replicate 32 0 else PublicKey (?A ! i))"
    using assms(5) by (simp add: NewTransaction_Accounts pad_key_def PublicKeySize_def)
  have cls: "sorted_wrt (\<lambda>a b. permission_class a \<le> permission_class b) ?A"
    by (rule sorted_accounts_classes[OF assms(1,2)])
  note pos = sorted_prefix_iff[OF cls assms(5)]
  have s: "i < ?nS \<longleftrightarrow> IsSigner (?A ! i)"
    using pos[of 1] by (simp only: permission_class_simps)
  have sw: "i < ?nSW \<longleftrightarrow> IsSigner (?A ! i) \<and> IsWritable (?A ! i)"
    using pos[of 0] by (simp only: permission_class_simps)
  have "i < length (filter (\<lambda>a. permission_class a \<le> 2) ?A) \<longleftrightarrow>
        \<not> (\<not> IsSigner (?A ! i) \<and> \<not> IsWritable (?A ! i))"
    using pos[of 2] by (simp only: permission_class_simps)
  moreover have "length (filter (\<lambda>a. permission_class a \<le> 2) ?A) = length ?A - ?nRO"
    using filter_class_complement[of ?A] by linarith
  ultimately have ro: "length ?A - ?nRO \<le> i \<longleftrightarrow> \<not> IsSigner (?A ! i) \<and> \<not> IsWritable (?A ! i)"
    by (simp add: not_less[symmetric])
  have d: "?nS - ?nSR = ?nSW" using split by simp
  show ?thesis
    unfolding uS uSR uRO len d using key s sw ro by blast
qed

theorem NewTransaction_partition_witness:
  "sort_contract insertionSort \<and>
   length (filter IsSigner (sorted_accounts insertionSort key_P [scenario])) < 256 \<and>
   length (filter (\<lambda>a. \<not> IsSigner a \<and> \<not> IsWritable a)
     (sorted_accounts insertionSort key_P [scenario])) < 256 \<and>
   (2::nat) < length (sorted_accounts insertionSort key_P [scenario]) \<and>
   Accounts (Message (NewTransaction insertionSort key_P [scenario])) ! 2 = key_B \<and>
   \<not> 2 < unat (NumSignatures (Header (Message (NewTransaction insertionSort key_P [scenario])))) \<and>
   length (Accounts (Message (NewTransaction insertionSort key_P [scenario]))) -
     unat (NumReadOnly (Header (Message (NewTransaction insertionSort key_P [scenario])))) \<le> 2 \<and>
   \<not> IsSigner (sorted_accounts insertionSort key_P [scenario] ! 2) \<and>
   \<not> IsWritable (sorted_accounts insertionSort key_P [scenario] ! 2)"
proof -
  have nop: "\<forall>i\<in>set [scenario]. \<forall>a\<in>set (InstrAccounts i). \<not> isPayer a"
    by (simp add: scenario_def scenario_instruction_def caller_meta_def)
  have c1: "length (filter IsSigner (sorted_accounts insertionSort key_P [scenario])) < 256"
    by (simp add: scenario_sorted)
  have c2: "length (filter (\<lambda>a. \<not> IsSigner a \<and> \<not> IsWritable a)
     (sorted_accounts insertionSort key_P [scenario])) < 256"
    by (simp add: scenario_sorted)
  have i: "(2::nat) < length (sorted_accounts insertionSort key_P [scenario])"
    by (simp add: scenario_sorted)
  have e: "sorted_accounts insertionSort key_P [scenario] ! 2 = caller_meta key_B False False"
    by (simp add: scenario_sorted)
  note r = NewTransaction_partition[OF insertionSort_contract nop c1 c2 i, unfolded e,
      THEN conjunct2]
  have k: "Accounts (Message (NewTransaction insertionSort key_P [scenario])) ! 2 = key_B"
    using r by (simp add: caller_meta_def key_B_def)
  have n: "\<not> 2 < unat (NumSignatures (Header (Message (NewTransaction insertionSort key_P [scenario]))))"
    using r by (simp add: caller_meta_def)
  have o: "length (Accounts (Message (NewTransaction insertionSort key_P [scenario]))) -
     unat (NumReadOnly (Header (Message (NewTransaction insertionSort key_P [scenario])))) \<le> 2"
    using r by (simp add: caller_meta_def)
  show ?thesis
    using insertionSort_contract c1 c2 i k n o unfolding e by (simp add: caller_meta_def)
qed

text \<open>
  C2, as stated, fails: an empty payer key is replaced in the table by 32 zero bytes, so
  the entry at index 0 is not the payer's key.
\<close>

theorem NewTransaction_empty_payer_padded:
  "Accounts (Message (NewTransaction insertionSort [] [])) ! 0 \<noteq> []"
  by (simp add: NewTransaction_Accounts sorted_accounts_def collect_accounts_eq filterUnique_def
      insertionSort_def pad_key_def PublicKeySize_def payer_meta_def)

text \<open>
  C2, amended: for every payer key and every list of instructions with caller-built
  account references (the unexported \<open>isPayer\<close> flag unset), index 0 of the account table
  holds the payer's key (32 zero bytes when the payer key is empty), and the first
  entry of the sorted sequence is the payer's, a writable signer: it adds one to
  \<open>NumSignatures\<close> and nothing to \<open>NumReadonlySigned\<close> and \<open>NumReadOnly\<close>, whose remaining
  counts come from the other accounts.
\<close>

theorem NewTransaction_payer_first:
  assumes "sort_contract srt"
    and "\<forall>i\<in>set instructions. \<forall>a\<in>set (InstrAccounts i). \<not> isPayer a"
  shows "Accounts (Message (NewTransaction srt payer instructions)) \<noteq> [] \<and>
    Accounts (Message (NewTransaction srt payer instructions)) ! 0 =
      (if payer = [] then replicate 32 0 else payer) \<and>
    PublicKey (sorted_accounts srt payer instructions ! 0) = payer \<and>
    IsSigner (sorted_accounts srt payer instructions ! 0) \<and>
    IsWritable (sorted_accounts srt payer instructions ! 0) \<and>
    NumSignatures (Header (Message (NewTransaction srt payer instructions))) =
      1 + of_nat (length (filter IsSigner (tl (sorted_accounts srt payer instructions)))) \<and>
    NumReadonlySigned (Header (Message (NewTransaction srt payer instructions))) =
      of_nat (length (filter (\<lambda>a. IsSigner a \<and> \<not> IsWritable a)
        (tl (sorted_accounts srt payer instructions)))) \<and>
    NumReadOnly (Header (Message (NewTransaction srt payer instructions))) =
      of_nat (length (filter (\<lambda>a. \<not> IsSigner a \<and> \<not> IsWritable a)
        (tl (sorted_accounts srt payer instructions))))"
proof -
  let ?A = "sorted_accounts srt payer instructions"
  from sorted_accounts_head[OF assms, of payer] have
    ne: "?A \<noteq> []" and k: "PublicKey (?A ! 0) = payer" and
    s: "IsSigner (?A ! 0)" and w: "IsWritable (?A ! 0)"
    by simp_all
  from ne obtain e rest where A: "?A = e # rest" by (cases ?A) auto
  have e: "PublicKey e = payer" "IsSigner e" "IsWritable e" using k s w A by simp_all
  show ?thesis
    unfolding NewTransaction_Header NewTransaction_Accounts A
    using e by (simp add: pad_key_def PublicKeySize_def)
qed

theorem NewTransaction_payer_first_witness:
  "sort_contract insertionSort \<and>
   Accounts (Message (NewTransaction insertionSort key_P [scenario])) ! 0 = key_P \<and>
   key_P \<noteq> [] \<and>
   PublicKey (sorted_accounts insertionSort key_P [scenario] ! 0) = key_P \<and>
   NumSignatures (Header (Message (NewTransaction insertionSort key_P [scenario]))) = 2 \<and>
   NumReadonlySigned (Header (Message (NewTransaction insertionSort key_P [scenario]))) = 0"
proof -
  have nop: "\<forall>i\<in>set [scenario]. \<forall>a\<in>set (InstrAccounts i). \<not> isPayer a"
    by (simp add: scenario_def scenario_instruction_def caller_meta_def)
  have t: "tl (sorted_accounts insertionSort key_P [scenario]) =
     [caller_meta key_A True True, caller_meta key_B False False, program_meta key_G]"
    by (simp add: scenario_sorted)
  have p: "key_P \<noteq> []" by (simp add: key_P_def)
  note r = NewTransaction_payer_first[OF insertionSort_contract nop, of key_P, unfolded t]
  show ?thesis
    using insertionSort_contract p r by (simp add: caller_meta_def program_meta_def)
qed

lemma sort_contract_unique:
  assumes srt: "sort_contract srt"
    and zs: "sorted_wrt (\<lambda>a b. rank a < rank b) zs"
    and m: "mset zs = mset xs"
  shows "srt xs = zs"
proof -
  let ?ys = "srt xs"
  have my: "mset ?ys = mset zs" using srt m by (simp add: sort_contract_def)
  have sy: "sorted (map rank ?ys)"
    using sort_contract_rank[OF srt, of xs] by (simp add: sorted_map)
  have "sorted_wrt (<) (map rank zs)" using zs by (simp add: sorted_wrt_map)
  then have sz: "sorted (map rank zs)" and dz: "distinct (map rank zs)"
    by (simp_all add: strict_sorted_iff)
  have mm: "mset (map rank ?ys) = mset (map rank zs)" using my by simp
  have dy: "distinct (map rank ?ys)" using dz mm by (metis mset_eq_imp_distinct_iff)
  have "set (map rank ?ys) = set (map rank zs)" using mm by (rule mset_eq_setD)
  with sy dy sz dz have eq: "map rank ?ys = map rank zs"
    by (intro sorted_distinct_set_unique)
  have "inj_on rank (set zs)" using dz by (simp add: distinct_map)
  moreover have "set ?ys = set zs" using my by (rule mset_eq_setD)
  ultimately have "inj_on rank (set ?ys \<union> set zs)" by simp
  with eq show ?thesis by (simp add: inj_on_map_eq_map)
qed

lemma scenario_instruction_sorted:
  assumes srt: "sort_contract srt" and d: "distinct [P, A, G, B]"
  shows "sorted_accounts srt P [scenario_instruction G A B d] =
     [payer_meta P, caller_meta A True True, caller_meta B False False, program_meta G]"
proof -
  let ?C = "[payer_meta P, program_meta G, caller_meta A True True, caller_meta B False False]"
  have c: "collect_accounts P [scenario_instruction G A B d] = ?C"
    by (simp add: collect_accounts_eq scenario_instruction_def)
  have "distinct (map PublicKey ?C)"
    using d by (auto simp: payer_meta_def program_meta_def caller_meta_def)
  then have f: "filterUnique ?C = ?C" by (rule filterUnique_id)
  have "srt ?C = [payer_meta P, caller_meta A True True, caller_meta B False False, program_meta G]"
    by (rule sort_contract_unique[OF srt])
       (simp_all add: rank_def payer_meta_def program_meta_def caller_meta_def)
  then show ?thesis by (simp add: sorted_accounts_def c f)
qed

lemma scenario_instruction_tx:
  assumes srt: "sort_contract srt" and d: "distinct [P, A, G, B]"
    and ne: "[] \<notin> set [P, A, G, B]"
  shows "NewTransaction srt P [scenario_instruction G A B d] =
     \<lparr>Signatures = [replicate 64 0, replicate 64 0],
      Message = \<lparr>Header = \<lparr>NumSignatures = 2, NumReadonlySigned = 0, NumReadOnly = 2\<rparr>,
                 Accounts = [P, A, B, G],
                 RecentBlockhash = replicate 32 0,
                 Instructions = [\<lparr>ProgramIndex = 3, CompiledAccounts = [1, 2], CompiledData = d\<rparr>]\<rparr>\<rparr>"
proof -
  have n: "replicate 2 x = [x, x]" for x :: "byte list"
    by (simp add: numeral_2_eq_2)
  have i: "indexOf [P, A, B, G] G = 3" "indexOf [P, A, B, G] A = 1" "indexOf [P, A, B, G] B = 2"
    using d by (auto simp add: indexOf_def)
  have p: "pad_key P = P" "pad_key A = A" "pad_key B = B" "pad_key G = G"
    using ne by (auto simp add: pad_key_def)
  show ?thesis
    unfolding NewTransaction_def Let_def scenario_instruction_sorted[OF srt d]
    by (simp add: add_account_def zero_Message_def zero_Blockhash_def zero_Signature_def
      SignatureSize_def payer_meta_def program_meta_def caller_meta_def compile_instruction_def
      scenario_instruction_def i p n)
qed

section \<open>Claim about the scenario\<close>

text \<open>
  C7, as stated, fails: in the scenario the header's \<open>NumReadOnly\<close> is 2, not 1, since
  both \<open>B\<close> and the program \<open>G\<close> are read-only non-signers.
\<close>

theorem scenario_NumReadOnly_is_two:
  "Header (Message (NewTransaction insertionSort key_P [scenario_instruction key_G key_A key_B []])) \<noteq>
     \<lparr>NumSignatures = 2, NumReadonlySigned = 0, NumReadOnly = 1\<rparr> \<and>
   NumReadOnly (Header (Message
     (NewTransaction insertionSort key_P [scenario_instruction key_G key_A key_B []]))) = 2"
proof -
  have "distinct [key_P, key_A, key_G, key_B]" "[] \<notin> set [key_P, key_A, key_G, key_B]"
    by (simp_all add: key_P_def key_A_def key_G_def key_B_def)
  from scenario_instruction_tx[OF insertionSort_contract this] show ?thesis by simp
qed

text \<open>
  C7, amended: for a payer \<open>P\<close> and one instruction calling program \<open>G\<close> with the accounts
  \<open>A\<close> (signer, writable) and \<open>B\<close> (read-only), where \<open>P\<close>, \<open>A\<close>, \<open>G\<close>, \<open>B\<close> are pairwise
  distinct non-empty keys: the account table is \<open>[P, A, B, G]\<close>, the header is
  \<open>{NumSignatures: 2, NumReadonlySigned: 0, NumReadOnly: 2}\<close>, signing with the key of \<open>P\<close>
  writes slot 0 and with the key of \<open>A\<close> writes slot 1, and signing with the key of \<open>G\<close>
  fails with \<open>NotASigner\<close> and writes nothing.
\<close>

theorem scenario_transaction:
  assumes "sort_contract srt"
    and "distinct [P, A, G, B]" and "[] \<notin> set [P, A, G, B]"
    and "pub kP = P" and "pub kA = A" and "pub kG = G"
    and "t = NewTransaction srt P [scenario_instruction G A B d]"
  shows "Accounts (Message t) = [P, A, B, G] \<and>
    Header (Message t) = \<lparr>NumSignatures = 2, NumReadonlySigned = 0, NumReadOnly = 2\<rparr> \<and>
    Signatures t = [replicate 64 0, replicate 64 0] \<and>
    Sign pub sign marshal t [kP] =
      (None, t\<lparr>Signatures :=
         [copy_bytes (replicate 64 0) (sign kP (marshal (Message t))), replicate 64 0]\<rparr>) \<and>
    Sign pub sign marshal t [kA] =
      (None, t\<lparr>Signatures :=
         [replicate 64 0, copy_bytes (replicate 64 0) (sign kA (marshal (Message t)))]\<rparr>) \<and>
    Sign pub sign marshal t [kP, kA] =
      (None, t\<lparr>Signatures :=
         [copy_bytes (replicate 64 0) (sign kP (marshal (Message t))),
          copy_bytes (replicate 64 0) (sign kA (marshal (Message t)))]\<rparr>) \<and>
    Sign pub sign marshal t [kG] = (Some NotASigner, t)"
proof -
  have t: "t = \<lparr>Signatures = [replicate 64 0, replicate 64 0],
      Message = \<lparr>Header = \<lparr>NumSignatures = 2, NumReadonlySigned = 0, NumReadOnly = 2\<rparr>,
                 Accounts = [P, A, B, G],
                 RecentBlockhash = replicate 32 0,
                 Instructions = [\<lparr>ProgramIndex = 3, CompiledAccounts = [1, 2], CompiledData = d\<rparr>]\<rparr>\<rparr>"
    unfolding assms(7) by (rule scenario_instruction_tx[OF assms(1-3)])
  have i: "indexOf [P, A, B, G] P = 0" "indexOf [P, A, B, G] A = 1" "indexOf [P, A, B, G] G = 3"
    using assms(2) by (auto simp add: indexOf_def)
  show ?thesis
    unfolding t by (simp add: Sign_def Let_def assms(4-6) i)
qed

theorem scenario_transaction_witness:
  "sort_contract insertionSort \<and> distinct [key_P, key_A, key_G, key_B] \<and>
   [] \<notin> set [key_P, key_A, key_G, key_B] \<and>
   demo_pub priv_P = key_P \<and> demo_pub priv_A = key_A \<and> demo_pub priv_G = key_G \<and>
   Accounts (Message scenario_tx) = [key_P, key_A, key_B, key_G] \<and>
   Header (Message scenario_tx) = \<lparr>NumSignatures = 2, NumReadonlySigned = 0, NumReadOnly = 2\<rparr> \<and>
   Sign demo_pub demo_sign demo_marshal scenario_tx [priv_P, priv_A] =
     (None, scenario_tx\<lparr>Signatures := [replicate 64 10, replicate 64 11]\<rparr>) \<and>
   Sign demo_pub demo_sign demo_marshal scenario_tx [priv_G] = (Some NotASigner, scenario_tx)"
proof -
  have d: "distinct [key_P, key_A, key_G, key_B]" and ne: "[] \<notin> set [key_P, key_A, key_G, key_B]"
    by (simp_all add: key_P_def key_A_def key_G_def key_B_def)
  have k: "demo_pub priv_P = key_P" "demo_pub priv_A = key_A" "demo_pub priv_G = key_G"
    by (simp_all add: demo_pub_def priv_P_def priv_A_def priv_G_def)
  have t: "scenario_tx = NewTransaction insertionSort key_P [scenario_instruction key_G key_A key_B [5, 6]]"
    by (simp add: scenario_tx_def scenario_def scenario_instruction_def)
  have c: "copy_bytes (replicate 64 0) (demo_sign priv_P m) = replicate 64 10"
          "copy_bytes (replicate 64 0) (demo_sign priv_A m) = replicate 64 11" for m
    by (simp_all add: copy_bytes_def demo_sign_def priv_P_def priv_A_def)
  from scenario_transaction[where pub = demo_pub and kP = priv_P and kA = priv_A and kG = priv_G
      and sign = demo_sign and marshal = demo_marshal, OF insertionSort_contract d ne k t]
  show ?thesis using insertionSort_contract d ne k by (simp add: c)
qed

text \<open>
  The bound on the table in the amended C6 is needed: with 257 accounts the program of
  \<open>many_signers\<close> sits at index 256, its compiled index is the byte 0, and the table
  holds the payer there.
\<close>

lemma NewTransaction_index_truncated:
  "indexOf (map PublicKey (sorted_accounts insertionSort key_P [many_signers])) (Program many_signers) = 256 \<and>
   ProgramIndex (Instructions (Message (NewTransaction insertionSort key_P [many_signers])) ! 0) = 0 \<and>
   Accounts (Message (NewTransaction insertionSort key_P [many_signers])) ! 0 = key_P \<and>
   key_P \<noteq> Program many_signers"
proof -
  let ?A = "sorted_accounts insertionSort key_P [many_signers]"
  let ?C = "collect_accounts key_P [many_signers]"
  have nop: "\<forall>i\<in>set [many_signers]. \<forall>a\<in>set (InstrAccounts i). \<not> isPayer a"
    by (simp add: many_signers_def caller_meta_def)
  have set_eq: "set ?A = set ?C"
    by (simp add: sorted_accounts_set[OF insertionSort_contract] filterUnique_id[OF many_signers_distinct])
  have "length ?A = length ?C"
    by (simp only: sorted_accounts_length[OF insertionSort_contract]
        filterUnique_id[OF many_signers_distinct])
  also have "\<dots> = 257" by (simp add: collect_accounts_eq many_signers_def)
  finally have len: "length ?A = 257" .
  have low: "length (filter (\<lambda>a. rank a \<le> 8) ?A) = 256"
  proof -
    have "length (filter (\<lambda>a. rank a \<le> 8) ?A) = length (filter (\<lambda>a. rank a \<le> 8) ?C)"
      by (simp add: sorted_accounts_def sort_contract_filter_length[OF insertionSort_contract]
          filterUnique_id[OF many_signers_distinct])
    also have "\<dots> = 256"
      by (simp add: collect_accounts_eq many_signers_def payer_meta_def program_meta_def
          caller_meta_def filter_map comp_def rank_def)
    finally show ?thesis .
  qed
  have r: "sorted_wrt (\<lambda>a b. rank a \<le> rank b) ?A"
    unfolding sorted_accounts_def by (rule sort_contract_rank[OF insertionSort_contract])
  have i: "(256::nat) < length ?A" using len by simp
  have "\<not> rank (?A ! 256) \<le> 8"
    using sorted_prefix_iff[OF r i, of 8] low by simp
  moreover have "?A ! 256 \<in> set ?C" using set_eq nth_mem[OF i] by simp
  ultimately have "?A ! 256 = program_meta key_G"
    by (auto simp: collect_accounts_eq many_signers_def payer_meta_def caller_meta_def rank_def)
  then have k: "map PublicKey ?A ! 256 = Program many_signers"
    using i by (simp add: program_meta_def many_signers_def)
  have d: "distinct (map PublicKey ?A)" by (rule sorted_accounts_distinct[OF insertionSort_contract])
  have idx: "indexOf (map PublicKey ?A) (Program many_signers) = 256"
    using indexOf_nth[OF d, of 256] i k by simp
  have pi: "ProgramIndex (Instructions (Message (NewTransaction insertionSort key_P [many_signers])) ! 0) = 0"
    by (simp add: NewTransaction_Instructions compile_instruction_def idx)
  have "PublicKey (?A ! 0) = key_P"
    using sorted_accounts_head[OF insertionSort_contract nop, of key_P] by simp
  moreover have "(0::nat) < length ?A" unfolding len by simp
  ultimately have a0: "Accounts (Message (NewTransaction insertionSort key_P [many_signers])) ! 0 = key_P"
    by (simp add: NewTransaction_Accounts pad_key_def key_P_def)
  show ?thesis using idx pi a0 by (simp add: many_signers_def key_P_def key_G_def)
qed

end
